theory Spec2Isabelle
  imports Complex_Main "HOL-Library.Sublist" "HOL-Library.Product_Lexorder" "HOL-Library.Log_Nat"
begin

section \<open>JavaScript values used by the TPS service\<close>

text \<open>
  The service of \<^verbatim>\<open>services/tpsService.js\<close> reads provider JSON, converts fields with
  \<^verbatim>\<open>Number\<close> and \<^verbatim>\<open>parseFloat\<close>, and prints dates with \<^verbatim>\<open>toISOString\<close>.
  A JavaScript number is an IEEE 754 double: NaN, an infinity, or a finite double given
  by its exact rational value. The sign of zero is not represented. Every operation on
  finite numbers rounds its exact result to the nearest double. The clock in seconds,
  \<^verbatim>\<open>Math.floor(Date.now() / 1000)\<close>, and the bounds computed from it are integers
  below \<open>2^53\<close>, on which the arithmetic is exact; they are kept as integers
  (lemmas \<open>roundDouble_int\<close> and \<open>floor_roundDouble_div1000\<close>).
\<close>

datatype jsnum = NaN | NegInf | Fin rat | PosInf

text \<open>
  A field of a provider object: absent, or a JSON scalar. \<open>JNum r\<close> is the number
  whose JSON literal has the decimal value \<open>r\<close>; the JavaScript value is the double
  nearest to \<open>r\<close>.
\<close>

datatype jsval = JUndefined | JNull | JBool bool | JNum rat | JStr string

datatype jserror =
    AxiosError
  | TypeError
  | RangeError
  | BulkWriteError
  | ReferenceError
  | MongoError
  | Error string

definition isNaN :: "jsnum \<Rightarrow> bool" where
  "isNaN x = (x = NaN)"

text \<open>The relational operators \<^verbatim>\<open><=\<close> and \<^verbatim>\<open>>=\<close> on numbers: false when an operand is NaN.\<close>

fun num_le :: "jsnum \<Rightarrow> jsnum \<Rightarrow> bool" where
  "num_le NaN _ = False"
| "num_le _ NaN = False"
| "num_le NegInf _ = True"
| "num_le _ PosInf = True"
| "num_le (Fin a) (Fin b) = (a \<le> b)"
| "num_le (Fin a) NegInf = False"
| "num_le PosInf (Fin b) = False"
| "num_le PosInf NegInf = False"

definition num_ge :: "jsnum \<Rightarrow> jsnum \<Rightarrow> bool" where
  "num_ge a b = num_le b a"

definition num_gt :: "jsnum \<Rightarrow> jsnum \<Rightarrow> bool" where
  "num_gt a b = (num_le b a \<and> a \<noteq> b)"

subsection \<open>Rounding to a double\<close>

text \<open>The power of two with an integer exponent.\<close>

definition pow2 :: "int \<Rightarrow> rat" where
  "pow2 e = (if 0 \<le> e then 2 ^ nat e else 1 / 2 ^ nat (- e))"

text \<open>The binary exponent of a positive number: \<open>2^e \<le> a < 2^(e+1)\<close>.\<close>

definition ilog2 :: "rat \<Rightarrow> int" where
  "ilog2 a = (if 1 \<le> a then bitlen \<lfloor>a\<rfloor> - 1 else - bitlen (\<lceil>1 / a\<rceil> - 1))"

text \<open>The nearest integer, the even one on a tie.\<close>

definition roundHalfEven :: "rat \<Rightarrow> int" where
  "roundHalfEven q =
     (let f = \<lfloor>q\<rfloor>;
          d = q - of_int f
      in if d < 1 / 2 then f
         else if 1 / 2 < d then f + 1
         else if even f then f
         else f + 1)"

text \<open>
  The Number value for a real number: the nearest double, with a significand of 53
  bits from the exponent \<open>-1022\<close> on (below it the spacing stays that of the
  subnormals), the one with an even significand on a tie, and an infinity when the
  rounded magnitude reaches \<open>2^1024\<close>.
\<close>

definition roundDouble :: "rat \<Rightarrow> jsnum" where
  "roundDouble x =
     (if x = 0 then Fin 0
      else
        (let e = max (ilog2 \<bar>x\<bar>) (- 1022);
             u = pow2 (e - 52);
             r = of_int (roundHalfEven (x / u)) * u
         in if 2 ^ 1024 \<le> r then PosInf
            else if r \<le> - (2 ^ 1024) then NegInf
            else Fin r))"

text \<open>
  Addition of numbers: an infinity absorbs, opposite infinities give NaN, the sum of
  two finite numbers is rounded.
\<close>

fun num_add :: "jsnum \<Rightarrow> jsnum \<Rightarrow> jsnum" where
  "num_add NaN _ = NaN"
| "num_add _ NaN = NaN"
| "num_add PosInf NegInf = NaN"
| "num_add NegInf PosInf = NaN"
| "num_add PosInf _ = PosInf"
| "num_add _ PosInf = PosInf"
| "num_add NegInf _ = NegInf"
| "num_add _ NegInf = NegInf"
| "num_add (Fin a) (Fin b) = roundDouble (a + b)"

subsection \<open>Reading numbers from strings\<close>

definition isDigit :: "char \<Rightarrow> bool" where
  "isDigit c = (48 \<le> (of_char c :: nat) \<and> (of_char c :: nat) \<le> 57)"

definition digitVal :: "char \<Rightarrow> nat" where
  "digitVal c = (of_char c :: nat) - 48"

text \<open>White space and line terminators, within ASCII.\<close>

definition isWhite :: "char \<Rightarrow> bool" where
  "isWhite c = ((of_char c :: nat) \<in> {9, 10, 11, 12, 13, 32})"

definition digitsVal :: "string \<Rightarrow> nat" where
  "digitsVal ds = foldl (\<lambda>a c. 10 * a + digitVal c) 0 ds"

definition scale10 :: "rat \<Rightarrow> int \<Rightarrow> rat" where
  "scale10 m e = (if 0 \<le> e then m * 10 ^ nat e else m / 10 ^ nat (- e))"

text \<open>
  \<^verbatim>\<open>ExponentPart\<close>: \<^verbatim>\<open>e\<close> or \<^verbatim>\<open>E\<close>, an optional sign, at least one digit. When the
  input does not continue with a complete exponent nothing is consumed.
\<close>

definition scanExponent :: "string \<Rightarrow> int \<times> string" where
  "scanExponent s =
     (case s of
        [] \<Rightarrow> (0, s)
      | c # t \<Rightarrow>
          if c = CHR ''e'' \<or> c = CHR ''E'' then
            (let (neg, u) =
                   (case t of
                      [] \<Rightarrow> (False, t)
                    | d # v \<Rightarrow>
                        if d = CHR ''-'' then (True, v)
                        else if d = CHR ''+'' then (False, v)
                        else (False, t));
                 ds = takeWhile isDigit u
             in if ds = [] then (0, s)
                else ((if neg then - int (digitsVal ds) else int (digitsVal ds)),
                      dropWhile isDigit u))
          else (0, s))"

text \<open>
  The longest prefix that is a \<^verbatim>\<open>StrUnsignedDecimalLiteral\<close>, with its value and the
  rest of the input.
\<close>

definition scanUnsigned :: "string \<Rightarrow> (jsnum \<times> string) option" where
  "scanUnsigned s =
     (if take 8 s = ''Infinity'' then Some (PosInf, drop 8 s)
      else
        (let ip = takeWhile isDigit s;
             r1 = dropWhile isDigit s;
             (fp, r2) =
               (case r1 of
                  [] \<Rightarrow> ([], r1)
                | c # t \<Rightarrow>
                    if c = CHR ''.'' then (takeWhile isDigit t, dropWhile isDigit t)
                    else ([], r1))
         in if ip = [] \<and> fp = [] then None
            else
              (let (e, r3) = scanExponent r2;
                   mant = of_nat (digitsVal ip) + of_nat (digitsVal fp) / 10 ^ length fp
               in Some (roundDouble (scale10 mant e), r3))))"

fun num_neg :: "jsnum \<Rightarrow> jsnum" where
  "num_neg NaN = NaN"
| "num_neg NegInf = PosInf"
| "num_neg PosInf = NegInf"
| "num_neg (Fin a) = Fin (- a)"

definition scanSigned :: "string \<Rightarrow> (jsnum \<times> string) option" where
  "scanSigned s =
     (case s of
        [] \<Rightarrow> None
      | c # t \<Rightarrow>
          if c = CHR ''+'' then scanUnsigned t
          else if c = CHR ''-'' then map_option (\<lambda>(n, r). (num_neg n, r)) (scanUnsigned t)
          else scanUnsigned s)"

text \<open>\<^verbatim>\<open>NonDecimalIntegerLiteral\<close>: \<^verbatim>\<open>0x\<close>, \<^verbatim>\<open>0o\<close>, \<^verbatim>\<open>0b\<close> and digits of that base.\<close>

definition baseDigit :: "nat \<Rightarrow> char \<Rightarrow> nat option" where
  "baseDigit b c =
     (let n = (of_char c :: nat);
          v = (if 48 \<le> n \<and> n \<le> 57 then Some (n - 48)
               else if 97 \<le> n \<and> n \<le> 102 then Some (n - 87)
               else if 65 \<le> n \<and> n \<le> 70 then Some (n - 55)
               else None)
      in case v of None \<Rightarrow> None | Some d \<Rightarrow> if d < b then Some d else None)"

definition scanNonDecimal :: "string \<Rightarrow> jsnum option" where
  "scanNonDecimal s =
     (case s of
        z # p # ds \<Rightarrow>
          (let b = (if p = CHR ''x'' \<or> p = CHR ''X'' then 16
                    else if p = CHR ''o'' \<or> p = CHR ''O'' then 8
                    else if p = CHR ''b'' \<or> p = CHR ''B'' then 2
                    else (0::nat))
           in if z = CHR ''0'' \<and> b \<noteq> 0 \<and> ds \<noteq> [] \<and> (\<forall>c \<in> set ds. baseDigit b c \<noteq> None)
              then Some (roundDouble (of_nat (foldl (\<lambda>a c. b * a + the (baseDigit b c)) 0 ds)))
              else None)
      | _ \<Rightarrow> None)"

definition trimWhite :: "string \<Rightarrow> string" where
  "trimWhite s = rev (dropWhile isWhite (rev (dropWhile isWhite s)))"

text \<open>\<^verbatim>\<open>StringToNumber\<close>: the whole trimmed string must be a numeric literal.\<close>

definition stringToNumber :: "string \<Rightarrow> jsnum" where
  "stringToNumber s =
     (let t = trimWhite s
      in if t = [] then Fin 0
         else
           (case scanNonDecimal t of
              Some n \<Rightarrow> n
            | None \<Rightarrow>
                (case scanSigned t of
                   Some (n, r) \<Rightarrow> if r = [] then n else NaN
                 | None \<Rightarrow> NaN)))"

text \<open>\<^verbatim>\<open>Number(v)\<close>.\<close>

fun Number :: "jsval \<Rightarrow> jsnum" where
  "Number JUndefined = NaN"
| "Number JNull = Fin 0"
| "Number (JBool b) = Fin (if b then 1 else 0)"
| "Number (JNum r) = roundDouble r"
| "Number (JStr s) = stringToNumber s"

text \<open>
  \<^verbatim>\<open>parseFloat(v)\<close> converts its argument to a string, skips leading white space and
  reads the longest prefix that is a decimal literal. A number prints as a literal
  that reads back as itself; \<^verbatim>\<open>undefined\<close>, \<^verbatim>\<open>null\<close>, \<^verbatim>\<open>true\<close> and \<^verbatim>\<open>false\<close>
  print as words that start no literal.
\<close>

definition parseFloatString :: "string \<Rightarrow> jsnum" where
  "parseFloatString s =
     (case scanSigned (dropWhile isWhite s) of
        Some (n, r) \<Rightarrow> n
      | None \<Rightarrow> NaN)"

fun parseFloat :: "jsval \<Rightarrow> jsnum" where
  "parseFloat JUndefined = NaN"
| "parseFloat JNull = NaN"
| "parseFloat (JBool b) = NaN"
| "parseFloat (JNum r) = roundDouble r"
| "parseFloat (JStr s) = parseFloatString s"

subsection \<open>Arithmetic helpers\<close>

text \<open>
  Operations that are increasing and unbounded on the reals (scaling by a positive
  constant, \<^verbatim>\<open>Math.floor\<close>, rounding to decimals) keep NaN and the infinities.
  \<open>num_map\<close> is for an operation whose result on a double is a double
  (\<^verbatim>\<open>Math.floor\<close>); \<open>num_round\<close> rounds the exact result to a double.
\<close>

fun num_map :: "(rat \<Rightarrow> rat) \<Rightarrow> jsnum \<Rightarrow> jsnum" where
  "num_map f (Fin a) = Fin (f a)"
| "num_map f x = x"

fun num_round :: "(rat \<Rightarrow> rat) \<Rightarrow> jsnum \<Rightarrow> jsnum" where
  "num_round f (Fin a) = roundDouble (f a)"
| "num_round f x = x"

definition num_sub :: "jsnum \<Rightarrow> jsnum \<Rightarrow> jsnum" where
  "num_sub a b = num_add a (num_neg b)"

definition num_max2 :: "jsnum \<Rightarrow> jsnum \<Rightarrow> jsnum" where
  "num_max2 a b = (if a = NaN \<or> b = NaN then NaN else if num_le a b then b else a)"

definition num_min2 :: "jsnum \<Rightarrow> jsnum \<Rightarrow> jsnum" where
  "num_min2 a b = (if a = NaN \<or> b = NaN then NaN else if num_le a b then a else b)"

text \<open>\<^verbatim>\<open>Math.max(...xs)\<close> and \<^verbatim>\<open>Math.min(...xs)\<close>.\<close>

definition mathMax :: "jsnum list \<Rightarrow> jsnum" where
  "mathMax xs = foldl num_max2 NegInf xs"

definition mathMin :: "jsnum list \<Rightarrow> jsnum" where
  "mathMin xs = foldl num_min2 PosInf xs"

text \<open>
  The decimal that \<^verbatim>\<open>x.toFixed(2)\<close> prints: \<open>n / 100\<close> for the integer \<open>n\<close> with
  \<open>n / 100\<close> nearest to \<open>x\<close>, the larger one on a tie, taken on the absolute value;
  from \<open>10^21\<close> on \<^verbatim>\<open>toFixed\<close> prints the number itself. \<^verbatim>\<open>parseFloat\<close> of the
  string is \<open>num_round toFixed2\<close>.
\<close>

definition toFixed2 :: "rat \<Rightarrow> rat" where
  "toFixed2 x =
     (if 10 ^ 21 \<le> \<bar>x\<bar> then x
      else if 0 \<le> x then of_int \<lfloor>x * 100 + 1 / 2\<rfloor> / 100
      else - (of_int \<lfloor>- x * 100 + 1 / 2\<rfloor> / 100))"

subsection \<open>Dates\<close>

text \<open>
  \<^verbatim>\<open>new Date(x)\<close> keeps a time value in milliseconds, or is an invalid date when
  \<open>x\<close> is not finite or beyond \<open>8.64e15\<close> in absolute value.
\<close>

fun newDate :: "jsnum \<Rightarrow> int option" where
  "newDate (Fin r) =
     (if \<bar>r\<bar> \<le> 8640000000000000 then Some (if 0 \<le> r then \<lfloor>r\<rfloor> else \<lceil>r\<rceil>) else None)"
| "newDate x = None"

definition digitChar :: "nat \<Rightarrow> char" where
  "digitChar d = ''0123456789'' ! d"

text \<open>
  The last \<open>w\<close> decimal digits of \<open>n\<close>. Every field of an ISO date fits its width,
  so this is the field padded with zeros.
\<close>

fun padZero :: "nat \<Rightarrow> nat \<Rightarrow> string" where
  "padZero 0 n = []"
| "padZero (Suc w) n = padZero w (n div 10) @ [digitChar (n mod 10)]"

text \<open>The civil date (year, month, day) of a day number counted from 1970-01-01.\<close>

definition civilFromDays :: "int \<Rightarrow> int \<times> nat \<times> nat" where
  "civilFromDays z =
     (let z1 = z + 719468;
          era = z1 div 146097;
          doe = z1 mod 146097;
          yoe = (doe - doe div 1460 + doe div 36524 - doe div 146096) div 365;
          y = yoe + era * 400;
          doy = doe - (365 * yoe + yoe div 4 - yoe div 100);
          mp = (5 * doy + 2) div 153;
          d = doy - (153 * mp + 2) div 5 + 1;
          m = (if mp < 10 then mp + 3 else mp - 9)
      in ((if m \<le> 2 then y + 1 else y), nat m, nat d))"

definition showYear :: "int \<Rightarrow> string" where
  "showYear y =
     (if 0 \<le> y \<and> y \<le> 9999 then padZero 4 (nat y)
      else (if y < 0 then ''-'' else ''+'') @ padZero 6 (nat \<bar>y\<bar>))"

definition isoString :: "int \<Rightarrow> string" where
  "isoString ms =
     (let (y, m, d) = civilFromDays (ms div 86400000);
          r = nat (ms mod 86400000)
      in showYear y @ ''-'' @ padZero 2 m @ ''-'' @ padZero 2 d @ ''T''
         @ padZero 2 (r div 3600000) @ '':'' @ padZero 2 (r div 60000 mod 60) @ '':''
         @ padZero 2 (r div 1000 mod 60) @ ''.'' @ padZero 3 (r mod 1000) @ ''Z'')"

text \<open>\<^verbatim>\<open>toISOString\<close> raises a RangeError on an invalid date.\<close>

definition toISOString :: "int option \<Rightarrow> jserror + string" where
  "toISOString d = (case d of None \<Rightarrow> Inl RangeError | Some ms \<Rightarrow> Inr (isoString ms))"

text \<open>\<^verbatim>\<open>new Date(t * 1000).toISOString()\<close> for a time \<open>t\<close> in seconds.\<close>

definition isoOfSeconds :: "jsnum \<Rightarrow> jserror + string" where
  "isoOfSeconds t = toISOString (newDate (num_round (\<lambda>r. r * 1000) t))"

section \<open>The series store\<close>

text \<open>
  A document of the \<^verbatim>\<open>TPS\<close> collection. The \<^verbatim>\<open>value\<close> field of a document read back
  with \<^verbatim>\<open>lean()\<close> is a number, \<^verbatim>\<open>null\<close>, or absent. \<^verbatim>\<open>lastUpdated\<close> is the time
  value of a \<^verbatim>\<open>Date\<close>, in milliseconds. The collection is the list of its documents,
  in insertion order.
\<close>

datatype stored_value = VMissing | VNull | VNum jsnum

record tps =
  chainId :: string
  timestamp :: jsnum
  "value" :: stored_value
  lastUpdated :: int

text \<open>
  One element of the \<^verbatim>\<open>bulkWrite\<close> argument:
  \<^verbatim>\<open>{ updateOne: { filter: {chainId, timestamp}, update: {$set: {value, lastUpdated}}, upsert: true } }\<close>.
\<close>

record write_op =
  filterChainId :: string
  filterTimestamp :: jsnum
  setValue :: jsnum
  setLastUpdated :: int

record bulk_result =
  matchedCount :: nat
  modifiedCount :: nat
  upsertedCount :: nat

definition matchesFilter :: "write_op \<Rightarrow> tps \<Rightarrow> bool" where
  "matchesFilter opn d = (chainId d = filterChainId opn \<and> timestamp d = filterTimestamp opn)"

definition applySet :: "write_op \<Rightarrow> tps \<Rightarrow> tps" where
  "applySet opn d = d\<lparr>value := VNum (setValue opn), lastUpdated := setLastUpdated opn\<rparr>"

definition insertedDoc :: "write_op \<Rightarrow> tps" where
  "insertedDoc opn =
     \<lparr>chainId = filterChainId opn, timestamp = filterTimestamp opn,
      value = VNum (setValue opn), lastUpdated = setLastUpdated opn\<rparr>"

text \<open>\<^verbatim>\<open>updateOne\<close> changes the first document that matches the filter.\<close>

fun updateFirst :: "write_op \<Rightarrow> tps list \<Rightarrow> tps list" where
  "updateFirst opn [] = []"
| "updateFirst opn (d # ds) =
     (if matchesFilter opn d then applySet opn d # ds else d # updateFirst opn ds)"

text \<open>
  \<^verbatim>\<open>updateOne\<close> with \<^verbatim>\<open>upsert: true\<close>: when no document matches, one is inserted with
  the fields of the filter and of \<^verbatim>\<open>$set\<close>. The counters are those of the driver's
  result: a matched document counts as modified when the update changed it.
\<close>

definition updateOneUpsert :: "write_op \<Rightarrow> tps list \<times> bulk_result \<Rightarrow> tps list \<times> bulk_result" where
  "updateOneUpsert opn st =
     (let (docs, res) = st
      in case find (matchesFilter opn) docs of
           None \<Rightarrow> (docs @ [insertedDoc opn], res\<lparr>upsertedCount := upsertedCount res + 1\<rparr>)
         | Some d \<Rightarrow>
             (updateFirst opn docs,
              res\<lparr>matchedCount := matchedCount res + 1,
                  modifiedCount := modifiedCount res + (if applySet opn d = d then 0 else 1)\<rparr>))"

text \<open>
  \<^verbatim>\<open>bulkWrite(ops, { ordered: false })\<close>: every operation is attempted, in order; an
  operation the server rejects (\<open>fails i\<close> for the operation at index \<open>i\<close>) leaves the
  collection as it is and the others still apply. When some operation failed the call
  raises after all were attempted.
\<close>

fun bulkApply :: "(nat \<Rightarrow> bool) \<Rightarrow> nat \<Rightarrow> write_op list \<Rightarrow> tps list \<times> bulk_result \<Rightarrow> tps list \<times> bulk_result" where
  "bulkApply fails i [] st = st"
| "bulkApply fails i (opn # ops) st =
     bulkApply fails (Suc i) ops (if fails i then st else updateOneUpsert opn st)"

definition bulkWrite :: "(nat \<Rightarrow> bool) \<Rightarrow> write_op list \<Rightarrow> tps list \<Rightarrow> tps list \<times> (jserror + bulk_result)" where
  "bulkWrite fails ops docs =
     (let (docs', res) = bulkApply fails 0 ops (docs, \<lparr>matchedCount = 0, modifiedCount = 0, upsertedCount = 0\<rparr>)
      in (docs', if \<exists>i \<in> set [0..<length ops]. fails i then Inl BulkWriteError else Inr res))"

section \<open>TpsService.updateTpsData\<close>

text \<open>
  An element of \<^verbatim>\<open>response.data.results\<close>: \<^verbatim>\<open>null\<close>, or a value whose \<^verbatim>\<open>timestamp\<close>
  and \<^verbatim>\<open>value\<close> properties can be read (an object; a number, string or boolean
  element has neither property and reads as \<open>Item JUndefined JUndefined\<close>).
\<close>

datatype raw_item = ItemNull | Item (item_timestamp: jsval) (item_value: jsval)

text \<open>
  The callback of \<^verbatim>\<open>results.filter\<close>. Reading a property of \<^verbatim>\<open>null\<close> raises a
  TypeError. The argument of the warning about a timestamp out of range is evaluated
  before the logger is called, so an invalid date there raises a RangeError.
\<close>

definition validItem :: "int \<Rightarrow> int \<Rightarrow> raw_item \<Rightarrow> jserror + bool" where
  "validItem thirtyDaysAgo currentTime item =
     (case item of
        ItemNull \<Rightarrow> Inl TypeError
      | Item tsv vv \<Rightarrow>
          (let timestamp = Number tsv;
               value = parseFloat vv
           in if isNaN timestamp \<or> isNaN value then Inr False
              else
                (let isValid = (num_ge timestamp (Fin (of_int thirtyDaysAgo))
                                \<and> num_le timestamp (Fin (of_int currentTime)))
                 in if \<not> isValid then
                      (case isoOfSeconds timestamp of
                         Inl e \<Rightarrow> Inl e
                       | Inr _ \<Rightarrow> Inr isValid)
                    else Inr isValid)))"

text \<open>\<^verbatim>\<open>Array.prototype.filter\<close> with a callback that may raise.\<close>

fun filterArray :: "('a \<Rightarrow> jserror + bool) \<Rightarrow> 'a list \<Rightarrow> jserror + 'a list" where
  "filterArray p [] = Inr []"
| "filterArray p (x # xs) =
     (case p x of
        Inl e \<Rightarrow> Inl e
      | Inr b \<Rightarrow>
          (case filterArray p xs of
             Inl e \<Rightarrow> Inl e
           | Inr ys \<Rightarrow> Inr (if b then x # ys else ys)))"

definition validTpsData :: "int \<Rightarrow> raw_item list \<Rightarrow> jserror + raw_item list" where
  "validTpsData currentTime results =
     (let thirtyDaysAgo = currentTime - (30 * 24 * 60 * 60)
      in filterArray (validItem thirtyDaysAgo currentTime) results)"

text \<open>
  The \<^verbatim>\<open>map\<close> that builds the write operations; \<open>dates i\<close> is what \<^verbatim>\<open>new Date()\<close>
  reads for the element at index \<open>i\<close>.
\<close>

fun updateOps :: "string \<Rightarrow> (nat \<Rightarrow> int) \<Rightarrow> nat \<Rightarrow> raw_item list \<Rightarrow> jserror + write_op list" where
  "updateOps cid dates i [] = Inr []"
| "updateOps cid dates i (ItemNull # xs) = Inl TypeError"
| "updateOps cid dates i (Item tsv vv # xs) =
     (case updateOps cid dates (Suc i) xs of
        Inl e \<Rightarrow> Inl e
      | Inr ops \<Rightarrow>
          Inr (\<lparr>filterChainId = cid, filterTimestamp = Number tsv,
                setValue = parseFloat vv, setLastUpdated = dates i\<rparr> # ops))"

text \<open>What one attempt meets: the outcome of \<^verbatim>\<open>axios.get\<close>, the clock, the store.\<close>

datatype response_data = DataFalsy | ResultsNotArray | Results "raw_item list"

datatype fetch_outcome = Rejected jserror | Resolved response_data

record attempt_env =
  response :: fetch_outcome
  dateNow :: int
  newDates :: "nat \<Rightarrow> int"
  writeFails :: "nat \<Rightarrow> bool"

datatype body_exit = Continue | ReturnResult bulk_result | ReturnNull

text \<open>
  The body of the \<^verbatim>\<open>try\<close> block of one attempt: the collection after it, and either
  the exception it raised or the way it left the block.
\<close>

definition tryBody :: "string \<Rightarrow> attempt_env \<Rightarrow> tps list \<Rightarrow> tps list \<times> (jserror + body_exit)" where
  "tryBody cid env docs =
     (case response env of
        Rejected e \<Rightarrow> (docs, Inl e)
      | Resolved DataFalsy \<Rightarrow> (docs, Inr Continue)
      | Resolved ResultsNotArray \<Rightarrow> (docs, Inr Continue)
      | Resolved (Results results) \<Rightarrow>
          (let currentTime = dateNow env div 1000
           in case validTpsData currentTime results of
                Inl e \<Rightarrow> (docs, Inl e)
              | Inr valid \<Rightarrow>
                  if length valid > 0 then
                    (case updateOps cid (newDates env) 0 valid of
                       Inl e \<Rightarrow> (docs, Inl e)
                     | Inr ops \<Rightarrow>
                         (case bulkWrite (writeFails env) ops docs of
                            (docs', Inl e) \<Rightarrow> (docs', Inl e)
                          | (docs', Inr result) \<Rightarrow> (docs', Inr (ReturnResult result))))
                  else (docs, Inr ReturnNull)))"

text \<open>
  The outcome of a call. The function returns the \<^verbatim>\<open>bulkWrite\<close> result or \<^verbatim>\<open>null\<close>;
  \<open>NoData\<close> is the \<^verbatim>\<open>return null\<close> after an empty filter result, \<open>Failed\<close> the one of
  the \<^verbatim>\<open>catch\<close> block on the last attempt and the one after the loop.
\<close>

datatype update_outcome = Applied bulk_result | NoData | Failed

fun returnValue :: "update_outcome \<Rightarrow> bulk_result option" where
  "returnValue (Applied r) = Some r"
| "returnValue NoData = None"
| "returnValue Failed = None"

datatype event = Attempt nat | Sleep nat

record update_result =
  outcome :: update_outcome
  docsAfter :: "tps list"
  trace :: "event list"

definition before :: "event list \<Rightarrow> jserror + update_result \<Rightarrow> jserror + update_result" where
  "before evs r = (case r of Inl e \<Rightarrow> Inl e | Inr u \<Rightarrow> Inr (u\<lparr>trace := evs @ trace u\<rparr>))"

text \<open>
  The \<^verbatim>\<open>for\<close> loop from \<open>attempt\<close> on. \<open>env k\<close> is what attempt \<open>k\<close> meets. The trace
  lists the attempts made and the waits of \<^verbatim>\<open>setTimeout\<close>, in milliseconds.
\<close>

function attemptLoop :: "string \<Rightarrow> (nat \<Rightarrow> attempt_env) \<Rightarrow> nat \<Rightarrow> nat \<Rightarrow> tps list \<Rightarrow> jserror + update_result" where
  "attemptLoop cid env retryCount attempt docs =
     (if attempt \<le> retryCount then
        (case tryBody cid (env attempt) docs of
           (docs', Inr (ReturnResult result)) \<Rightarrow>
             Inr \<lparr>outcome = Applied result, docsAfter = docs', trace = [Attempt attempt]\<rparr>
         | (docs', Inr ReturnNull) \<Rightarrow>
             Inr \<lparr>outcome = NoData, docsAfter = docs', trace = [Attempt attempt]\<rparr>
         | (docs', Inr Continue) \<Rightarrow>
             before [Attempt attempt] (attemptLoop cid env retryCount (Suc attempt) docs')
         | (docs', Inl error) \<Rightarrow>
             if attempt = retryCount then
               Inr \<lparr>outcome = Failed, docsAfter = docs', trace = [Attempt attempt]\<rparr>
             else
               before [Attempt attempt, Sleep (attempt * 2000)]
                 (attemptLoop cid env retryCount (Suc attempt) docs'))
      else Inr \<lparr>outcome = Failed, docsAfter = docs, trace = []\<rparr>)"
  by pat_completeness auto
termination
  by (relation "measure (\<lambda>(cid, env, retryCount, attempt, docs). Suc retryCount - attempt)") auto

declare attemptLoop.simps [simp del]

definition updateTpsData :: "string \<Rightarrow> nat \<Rightarrow> (nat \<Rightarrow> attempt_env) \<Rightarrow> tps list \<Rightarrow> jserror + update_result" where
  "updateTpsData cid retryCount env docs = attemptLoop cid env retryCount 1 docs"

text \<open>Whether an attempt raises is decided before the store is touched by anyone else: it
  depends on the response, the clock and the operations the server rejects, not on the
  documents already stored (lemma \<open>tryBody_raises_indep\<close> below).\<close>

definition attemptRaises :: "string \<Rightarrow> attempt_env \<Rightarrow> bool" where
  "attemptRaises cid a = isl (snd (tryBody cid a []))"

fun attemptsIn :: "event list \<Rightarrow> nat list" where
  "attemptsIn [] = []"
| "attemptsIn (Attempt k # es) = k # attemptsIn es"
| "attemptsIn (Sleep ms # es) = attemptsIn es"

text \<open>A response without the expected shape: no body, or \<^verbatim>\<open>results\<close> not an array.\<close>

definition isSoft :: "attempt_env \<Rightarrow> bool" where
  "isSoft a = (response a = Resolved DataFalsy \<or> response a = Resolved ResultsNotArray)"

definition isRejected :: "attempt_env \<Rightarrow> bool" where
  "isRejected a = (case response a of Rejected e \<Rightarrow> True | Resolved d \<Rightarrow> False)"

text \<open>What one attempt adds to the trace of a call with \<open>n\<close> attempts allowed.\<close>

definition segment :: "string \<Rightarrow> (nat \<Rightarrow> attempt_env) \<Rightarrow> nat \<Rightarrow> nat \<Rightarrow> event list" where
  "segment cid env n k =
     Attempt k # (if attemptRaises cid (env k) \<and> k < n then [Sleep (k * 2000)] else [])"

section \<open>Reading the latest point, and the refresh route\<close>

text \<open>
  The order of \<^verbatim>\<open>sort({ timestamp: ... })\<close> on numbers: NaN first, then by value.
\<close>

fun sortRank :: "jsnum \<Rightarrow> nat \<times> rat" where
  "sortRank NaN = (0, 0)"
| "sortRank NegInf = (1, 0)"
| "sortRank (Fin r) = (2, r)"
| "sortRank PosInf = (3, 0)"

text \<open>
  \<^verbatim>\<open>findOne(filter).sort({ timestamp: -1 })\<close>: a matching document with the greatest
  timestamp (the first such document of the collection).
\<close>

fun latestOf :: "tps list \<Rightarrow> tps option" where
  "latestOf [] = None"
| "latestOf (d # ds) =
     (case latestOf ds of
        None \<Rightarrow> Some d
      | Some e \<Rightarrow> if sortRank (timestamp e) \<le> sortRank (timestamp d) then Some d else Some e)"

definition findOneLatest :: "(tps \<Rightarrow> bool) \<Rightarrow> tps list \<Rightarrow> tps option" where
  "findOneLatest p docs = latestOf (filter p docs)"

text \<open>The projection \<^verbatim>\<open>select('-_id timestamp value')\<close>.\<close>

record tps_point =
  pointTimestamp :: jsnum
  pointValue :: stored_value

definition selectPoint :: "tps \<Rightarrow> tps_point" where
  "selectPoint d = \<lparr>pointTimestamp = timestamp d, pointValue = value d\<rparr>"

text \<open>
  \<^verbatim>\<open>getLatestTps\<close>: \<open>findFails1\<close> and \<open>findFails2\<close> say whether the first and the second
  \<^verbatim>\<open>findOne\<close> reject; \<open>env\<close> is what the attempts of the refresh on a miss meet.
\<close>

definition getLatestTps ::
  "string \<Rightarrow> (nat \<Rightarrow> attempt_env) \<Rightarrow> bool \<Rightarrow> bool \<Rightarrow> tps list \<Rightarrow> tps list \<times> (jserror + tps_point option)" where
  "getLatestTps cid env findFails1 findFails2 docs =
     (if findFails1 then (docs, Inl (Error ''Error fetching latest TPS''))
      else
        (case findOneLatest (\<lambda>d. chainId d = cid) docs of
           Some d \<Rightarrow> (docs, Inr (Some (selectPoint d)))
         | None \<Rightarrow>
             (case updateTpsData cid 3 env docs of
                Inl e \<Rightarrow> (docs, Inl (Error ''Error fetching latest TPS''))
              | Inr u \<Rightarrow>
                  if findFails2 then (docsAfter u, Inl (Error ''Error fetching latest TPS''))
                  else
                    (docsAfter u,
                     Inr (map_option selectPoint
                            (findOneLatest (\<lambda>d. chainId d = cid) (docsAfter u)))))))"

text \<open>
  The handler of \<^verbatim>\<open>POST /update/chain/:chainId/tps\<close>. It answers with a status and a
  body, or its promise rejects and nothing is sent.
\<close>

datatype json_body =
    UpdateOk string "tps_point option"
  | Failure string

fun success :: "json_body \<Rightarrow> bool" where
  "success (UpdateOk cid latest) = True"
| "success (Failure msg) = False"

datatype handler_result = Responded nat json_body | HandlerRejected jserror

record route_env =
  firstUpdate :: "nat \<Rightarrow> attempt_env"
  refill :: "nat \<Rightarrow> attempt_env"
  findFails1 :: bool
  findFails2 :: bool

text \<open>
  The \<^verbatim>\<open>catch\<close> block of the handler starts with
  \<^verbatim>\<open>console.error(`Failed to update chain ${chainId}:`, error)\<close>; \<^verbatim>\<open>chainId\<close> is a
  \<^verbatim>\<open>const\<close> of the \<^verbatim>\<open>try\<close> block and is not in scope there, so the block raises a
  ReferenceError before \<^verbatim>\<open>res.status(500)\<close> is reached.
\<close>

definition routeCatch :: "jserror \<Rightarrow> handler_result" where
  "routeCatch error = HandlerRejected ReferenceError"

definition updateChainTpsRoute :: "string \<Rightarrow> route_env \<Rightarrow> tps list \<Rightarrow> tps list \<times> handler_result" where
  "updateChainTpsRoute cid renv docs =
     (case updateTpsData cid 3 (firstUpdate renv) docs of
        Inl e \<Rightarrow> (docs, routeCatch e)
      | Inr u \<Rightarrow>
          (case getLatestTps cid (refill renv) (findFails1 renv) (findFails2 renv) (docsAfter u) of
             (docs', Inl e) \<Rightarrow> (docs', routeCatch e)
           | (docs', Inr latestTps) \<Rightarrow> (docs', Responded 200 (UpdateOk cid latestTps))))"

section \<open>The network aggregates\<close>

text \<open>Sequencing of steps that may raise.\<close>

definition andThen :: "jserror + 'a \<Rightarrow> ('a \<Rightarrow> jserror + 'b) \<Rightarrow> jserror + 'b" where
  "andThen m f = (case m of Inl e \<Rightarrow> Inl e | Inr x \<Rightarrow> f x)"

text \<open>\<^verbatim>\<open>xs.map(f)\<close> with a callback that may raise.\<close>

fun mapArray :: "('a \<Rightarrow> jserror + 'b) \<Rightarrow> 'a list \<Rightarrow> jserror + 'b list" where
  "mapArray f [] = Inr []"
| "mapArray f (x # xs) =
     (case f x of
        Inl e \<Rightarrow> Inl e
      | Inr y \<Rightarrow> (case mapArray f xs of Inl e \<Rightarrow> Inl e | Inr ys \<Rightarrow> Inr (y # ys)))"

definition isoOfMillis :: "jsnum \<Rightarrow> jserror + string" where
  "isoOfMillis x = toISOString (newDate x)"

definition times1000 :: "jsnum \<Rightarrow> jsnum" where
  "times1000 t = num_round (\<lambda>r. r * 1000) t"

text \<open>\<^verbatim>\<open>result.value || 0\<close>: a missing, null, zero or NaN value is falsy.\<close>

fun truthy :: "stored_value \<Rightarrow> bool" where
  "truthy VMissing = False"
| "truthy VNull = False"
| "truthy (VNum NaN) = False"
| "truthy (VNum (Fin r)) = (r \<noteq> 0)"
| "truthy (VNum x) = True"

fun valueOrZero :: "stored_value \<Rightarrow> jsnum" where
  "valueOrZero (VNum x) = (if truthy (VNum x) then x else Fin 0)"
| "valueOrZero v = Fin 0"

record snapshot =
  totalTps :: jsnum
  chainCount :: nat
  snapshotTimestamp :: jsnum
  dataAge :: jsnum
  lastUpdate :: "string option"

text \<open>
  The callback of \<^verbatim>\<open>tpsResults.filter\<close>: a missing result is dropped; the warning about
  a timestamp out of bounds prints a date.
\<close>

definition validResult :: "int \<Rightarrow> int \<Rightarrow> tps option \<Rightarrow> jserror + bool" where
  "validResult oneDayAgo currentTime result =
     (case result of
        None \<Rightarrow> Inr False
      | Some r \<Rightarrow>
          (let isValid = (num_ge (timestamp r) (Fin (of_int oneDayAgo))
                          \<and> num_le (timestamp r) (Fin (of_int currentTime)))
           in if \<not> isValid then
                (case isoOfSeconds (timestamp r) of Inl e \<Rightarrow> Inl e | Inr _ \<Rightarrow> Inr isValid)
              else Inr isValid))"

text \<open>
  \<^verbatim>\<open>getNetworkTps\<close>, in the order of the source. \<open>chainIds\<close> are the \<^verbatim>\<open>chainId\<close>s of
  \<^verbatim>\<open>Chain.find()\<close>, \<open>nowMs\<close> is \<^verbatim>\<open>Date.now()\<close>. The arguments of the log calls that
  print dates are evaluated as in the source, since an invalid date raises; the
  \<^verbatim>\<open>catch\<close> block rethrows. The fields \<^verbatim>\<open>updatedAt\<close> (the wall clock) and
  \<^verbatim>\<open>dataAgeUnit\<close> (a constant) are left out.
\<close>

text \<open>The log of the time boundaries.\<close>

definition logTimeBoundaries :: "int \<Rightarrow> int \<Rightarrow> jserror + string list" where
  "logTimeBoundaries currentTime oneDayAgo =
     mapArray isoOfSeconds [Fin (of_int currentTime), Fin (of_int oneDayAgo)]"

text \<open>The query for all records of the last 24 hours and the log of their time range.\<close>

definition logAllRecords :: "int \<Rightarrow> tps list \<Rightarrow> jserror + string list" where
  "logAllRecords oneDayAgo docs =
     (let allTpsRecords = filter (\<lambda>r. num_ge (timestamp r) (Fin (of_int oneDayAgo))) docs
      in if length allTpsRecords \<noteq> 0
         then mapArray isoOfMillis
                [mathMin (map (\<lambda>r. times1000 (timestamp r)) allTpsRecords),
                 mathMax (map (\<lambda>r. times1000 (timestamp r)) allTpsRecords)]
         else Inr [])"

text \<open>One \<^verbatim>\<open>findOne\<close> per chain, bounded below and above, latest first.\<close>

definition latestTpsResults :: "string list \<Rightarrow> tps list \<Rightarrow> int \<Rightarrow> int \<Rightarrow> tps option list" where
  "latestTpsResults chainIds docs oneDayAgo currentTime =
     map (\<lambda>c. findOneLatest
                (\<lambda>d. chainId d = c \<and> num_ge (timestamp d) (Fin (of_int oneDayAgo))
                     \<and> num_le (timestamp d) (Fin (of_int currentTime))) docs) chainIds"

text \<open>
  The logs between the filter and the result: the details of the valid results, the
  future timestamps, the oldest and newest timestamp and the current time.
\<close>

definition logValidResults :: "int \<Rightarrow> tps list \<Rightarrow> jserror + string" where
  "logValidResults currentTime validResults =
     andThen (mapArray (\<lambda>r. isoOfSeconds (timestamp r)) validResults) (\<lambda>_.
     let timestamps = map timestamp validResults;
         futureTimestamps = filter (\<lambda>t. num_gt t (Fin (of_int currentTime))) timestamps
     in
     andThen (if length futureTimestamps > 0 then mapArray isoOfSeconds futureTimestamps else Inr []) (\<lambda>_.
     andThen (if length validResults \<noteq> 0
              then mapArray isoOfSeconds [mathMin timestamps, mathMax timestamps]
              else Inr []) (\<lambda>_.
     isoOfSeconds (Fin (of_int currentTime)))))"

text \<open>The result: the zeroed snapshot, or the totals over the valid results.\<close>

definition buildSnapshot :: "int \<Rightarrow> tps list \<Rightarrow> jserror + snapshot" where
  "buildSnapshot currentTime validResults =
     (if length validResults = 0 then
        Inr \<lparr>totalTps = Fin 0, chainCount = 0, snapshotTimestamp = Fin (of_int currentTime),
             dataAge = Fin 0, lastUpdate = None\<rparr>
      else
        (let timestamps = map timestamp validResults;
             total = foldl (\<lambda>sum result. num_add sum (valueOrZero (value result))) (Fin 0) validResults;
             latestTimestamp = mathMax timestamps;
             dataAge = mathMax [Fin 0,
                         num_map (\<lambda>r. of_int \<lfloor>r\<rfloor>)
                           (num_round (\<lambda>r. r / 60) (num_sub (Fin (of_int currentTime)) latestTimestamp))]
         in andThen (isoOfSeconds latestTimestamp) (\<lambda>isoDate.
              Inr \<lparr>totalTps = num_round toFixed2 total, chainCount = length validResults,
                   snapshotTimestamp = latestTimestamp, dataAge = dataAge,
                   lastUpdate = Some isoDate\<rparr>)))"

definition getNetworkTps :: "string list \<Rightarrow> tps list \<Rightarrow> int \<Rightarrow> jserror + snapshot" where
  "getNetworkTps chainIds docs nowMs =
     (let currentTime = nowMs div 1000;
          oneDayAgo = currentTime - (24 * 60 * 60)
      in
      andThen (logTimeBoundaries currentTime oneDayAgo) (\<lambda>_.
      andThen (logAllRecords oneDayAgo docs) (\<lambda>_.
      andThen (filterArray (validResult oneDayAgo currentTime)
                 (latestTpsResults chainIds docs oneDayAgo currentTime)) (\<lambda>kept.
      let validResults = map the kept
      in
      andThen (logValidResults currentTime validResults) (\<lambda>_.
      buildSnapshot currentTime validResults)))))"











section \<open>Concrete situations\<close>

text \<open>The provider is unreachable on every attempt.\<close>

definition providerDown :: "nat \<Rightarrow> attempt_env" where
  "providerDown k =
     \<lparr>response = Rejected AxiosError, dateNow = 1700000000123,
      newDates = (\<lambda>i. 1700000000200), writeFails = (\<lambda>i. False)\<rparr>"

text \<open>The request is rejected on attempts 1 and 3; attempt 2 gets a body without \<^verbatim>\<open>results\<close>.\<close>

definition flakyProvider :: "nat \<Rightarrow> attempt_env" where
  "flakyProvider k =
     \<lparr>response = (if k = 2 then Resolved ResultsNotArray else Rejected AxiosError),
      dateNow = 1700000000123,
      newDates = (\<lambda>i. 1700000000200), writeFails = (\<lambda>i. False)\<rparr>"

text \<open>Every attempt gets an empty body (attempt 1) or a body without \<^verbatim>\<open>results\<close>.\<close>

definition malformedProvider :: "nat \<Rightarrow> attempt_env" where
  "malformedProvider k =
     \<lparr>response = (if k = 1 then Resolved DataFalsy else Resolved ResultsNotArray),
      dateNow = 1700000000123,
      newDates = (\<lambda>i. 1700000000200), writeFails = (\<lambda>i. False)\<rparr>"

text \<open>The key of the unique index of the collection.\<close>

definition docKey :: "tps \<Rightarrow> string \<times> jsnum" where
  "docKey d = (chainId d, timestamp d)"

definition uniqueKeys :: "tps list \<Rightarrow> bool" where
  "uniqueKeys docs = distinct (map docKey docs)"

text \<open>One upsert of \<open>(chainId, timestamp, value)\<close> written at date \<open>w\<close>, as a bulk of one operation.\<close>

definition upsertOne :: "string \<Rightarrow> jsnum \<Rightarrow> jsnum \<Rightarrow> int \<Rightarrow> tps list \<Rightarrow> tps list" where
  "upsertOne c t v w docs =
     fst (bulkWrite (\<lambda>i. False)
            [\<lparr>filterChainId = c, filterTimestamp = t, setValue = v, setLastUpdated = w\<rparr>] docs)"

text \<open>A document of another chain.\<close>

definition otherDoc :: tps where
  "otherDoc =
     \<lparr>chainId = ''4337'', timestamp = Fin 1700000000, value = VNum (Fin 2), lastUpdated = 1700000000100\<rparr>"

text \<open>
  The points the validator is meant to keep at the time \<open>now\<close> (in seconds): both fields
  convert to a number and the timestamp lies in \<open>[now - 30 days, now]\<close>.
\<close>

definition inWindow :: "int \<Rightarrow> raw_item \<Rightarrow> bool" where
  "inWindow now item =
     (case item of
        ItemNull \<Rightarrow> False
      | Item tsv vv \<Rightarrow>
          \<not> isNaN (Number tsv) \<and> \<not> isNaN (parseFloat vv)
          \<and> num_ge (Number tsv) (Fin (of_int (now - 30 * 86400)))
          \<and> num_le (Number tsv) (Fin (of_int now)))"

text \<open>The write operation for a validated point, written at the date \<open>w\<close>.\<close>

definition opOf :: "string \<Rightarrow> int \<Rightarrow> raw_item \<Rightarrow> write_op" where
  "opOf cid w item =
     \<lparr>filterChainId = cid, filterTimestamp = Number (item_timestamp item),
      setValue = parseFloat (item_value item), setLastUpdated = w\<rparr>"

fun exitOutcome :: "body_exit \<Rightarrow> update_outcome" where
  "exitOutcome (ReturnResult r) = Applied r"
| "exitOutcome ReturnNull = NoData"
| "exitOutcome Continue = Failed"

text \<open>A point ten seconds old, with its value as a string.\<close>

definition goodPoint :: raw_item where
  "goodPoint = Item (JNum 1699999990) (JStr ''3.5'')"

text \<open>The provider answers with \<open>goodPoint\<close>; the store accepts the write.\<close>

definition goodProvider :: "nat \<Rightarrow> attempt_env" where
  "goodProvider k =
     \<lparr>response = Resolved (Results [goodPoint]), dateNow = 1700000000123,
      newDates = (\<lambda>i. 1700000000200), writeFails = (\<lambda>i. False)\<rparr>"

text \<open>The provider answers with \<open>goodPoint\<close>; the store rejects every write.\<close>

definition storeRejects :: "nat \<Rightarrow> attempt_env" where
  "storeRejects k =
     \<lparr>response = Resolved (Results [goodPoint]), dateNow = 1700000000123,
      newDates = (\<lambda>i. 1700000000200), writeFails = (\<lambda>i. True)\<rparr>"

text \<open>The provider reports the current instant in microseconds.\<close>

definition microsecondPoint :: raw_item where
  "microsecondPoint = Item (JNum 1700000000000000) (JNum 1)"

definition microsecondProvider :: "nat \<Rightarrow> attempt_env" where
  "microsecondProvider k =
     \<lparr>response = Resolved (Results [microsecondPoint]), dateNow = 1700000000123,
      newDates = (\<lambda>i. 1700000000200), writeFails = (\<lambda>i. False)\<rparr>"

text \<open>A document of chain 43114 written a day and a half before \<open>1700000000\<close>.\<close>

definition staleDoc :: tps where
  "staleDoc =
     \<lparr>chainId = ''43114'', timestamp = Fin 1699870400, value = VNum (Fin 4), lastUpdated = 1699870500000\<rparr>"

definition allDown :: route_env where
  "allDown = \<lparr>firstUpdate = providerDown, refill = providerDown, findFails1 = False, findFails2 = False\<rparr>"

section \<open>Notions used to state the properties of the aggregates\<close>

text \<open>The timestamp lies in the 24 hours that end at \<open>now\<close> (in seconds).\<close>

definition inLastDay :: "int \<Rightarrow> jsnum \<Rightarrow> bool" where
  "inLastDay now t = (num_ge t (Fin (of_int (now - 86400))) \<and> num_le t (Fin (of_int now)))"

text \<open>The documents of a chain in that window, and the chains that have one.\<close>

definition recentOf :: "tps list \<Rightarrow> int \<Rightarrow> string \<Rightarrow> tps list" where
  "recentOf docs now c = filter (\<lambda>d. chainId d = c \<and> inLastDay now (timestamp d)) docs"

definition validChains :: "string list \<Rightarrow> tps list \<Rightarrow> int \<Rightarrow> string list" where
  "validChains chainIds docs now = filter (\<lambda>c. recentOf docs now c \<noteq> []) chainIds"

text \<open>The latest document of a chain in the window (for a chain that has one).\<close>

definition latestRecent :: "tps list \<Rightarrow> int \<Rightarrow> string \<Rightarrow> tps" where
  "latestRecent docs now c = the (latestOf (recentOf docs now c))"

text \<open>The value a document adds to the total: nothing when the value is falsy.\<close>

fun finiteValue :: "stored_value \<Rightarrow> rat" where
  "finiteValue (VNum (Fin r)) = r"
| "finiteValue v = 0"

definition isInfinite :: "stored_value \<Rightarrow> bool" where
  "isInfinite v = (v = VNum PosInf \<or> v = VNum NegInf)"


text \<open>The number is a double: its finite value is the one rounding gives back.\<close>

definition isDouble :: "jsnum \<Rightarrow> bool" where
  "isDouble x = (case x of Fin r \<Rightarrow> roundDouble r = Fin r | _ \<Rightarrow> True)"

text \<open>
  Every stored timestamp is a finite number that \<^verbatim>\<open>Date\<close> can represent in
  milliseconds. Documents written by \<^verbatim>\<open>updateTpsData\<close> have a timestamp inside the
  window of the validator, so a collection written under a clock within the range of
  \<^verbatim>\<open>Date\<close> keeps this property (lemma \<open>updateTpsData_printable\<close>).
\<close>

definition printable :: "jsnum \<Rightarrow> bool" where
  "printable t = (case t of Fin r \<Rightarrow> \<bar>r\<bar> \<le> 8640000000000 | _ \<Rightarrow> False)"

definition printableStore :: "tps list \<Rightarrow> bool" where
  "printableStore docs = (\<forall>d \<in> set docs. printable (timestamp d))"

text \<open>\<^verbatim>\<open>Date.now()\<close> is a time value of the range of \<^verbatim>\<open>Date\<close>, not before the epoch.\<close>

definition saneClock :: "attempt_env \<Rightarrow> bool" where
  "saneClock a = (0 \<le> dateNow a \<and> dateNow a \<le> 8640000000000000)"

fun ratOf :: "jsnum \<Rightarrow> rat" where
  "ratOf (Fin r) = r"
| "ratOf x = 0"

text \<open>
  Three chains at \<open>Date.now() = 1700000000123\<close>: chain 43114 with a recent and an older
  point, chain 4337 whose latest point has a null value, chain 8888 with a point in
  the future only, and a point of a chain that is not in the catalogue.
\<close>

definition sampleDocs :: "tps list" where
  "sampleDocs =
     [\<lparr>chainId = ''43114'', timestamp = Fin 1699999000, value = VNum (Fin (41 / 8)), lastUpdated = 0\<rparr>,
      \<lparr>chainId = ''43114'', timestamp = Fin 1699990000, value = VNum (Fin 100), lastUpdated = 0\<rparr>,
      \<lparr>chainId = ''4337'', timestamp = Fin 1699999900, value = VNull, lastUpdated = 0\<rparr>,
      \<lparr>chainId = ''8888'', timestamp = Fin 1700000100, value = VNum (Fin 3), lastUpdated = 0\<rparr>,
      \<lparr>chainId = ''7777'', timestamp = Fin 1699999900, value = VNum (Fin 7), lastUpdated = 0\<rparr>]"

text \<open>Two chains whose latest values are the two infinities.\<close>

definition infiniteDocs :: "tps list" where
  "infiniteDocs =
     [\<lparr>chainId = ''43114'', timestamp = Fin 1699999000, value = VNum PosInf, lastUpdated = 0\<rparr>,
      \<lparr>chainId = ''4337'', timestamp = Fin 1699999900, value = VNum NegInf, lastUpdated = 0\<rparr>]"





section \<open>Properties of rounding to a double\<close>

lemma pow2_powi: "pow2 e = 2 powi e"
  by (simp add: pow2_def power_int_def inverse_eq_divide power_one_over)

lemma pow2_pos [simp]: "0 < pow2 e"
  by (simp add: pow2_def)

lemma pow2_add: "pow2 (a + b) = pow2 a * pow2 b"
  by (simp add: pow2_powi power_int_add)

lemma pow2_mono: "a \<le> b \<Longrightarrow> pow2 a \<le> pow2 b"
  by (simp add: pow2_powi power_int_increasing)

lemma pow2_strict_mono: "a < b \<Longrightarrow> pow2 a < pow2 b"
  by (simp add: pow2_powi power_int_strict_increasing)

lemma pow2_nat: "pow2 (int n) = 2 ^ n"
  by (simp add: pow2_def)

lemma pow2_le_iff: "pow2 a \<le> pow2 b \<longleftrightarrow> a \<le> b"
  using pow2_mono pow2_strict_mono by (metis not_le)

lemma pow2_less_iff: "pow2 a < pow2 b \<longleftrightarrow> a < b"
  using pow2_mono pow2_strict_mono by (metis not_le)

lemma ilog2_bounds:
  assumes "0 < a"
  shows "pow2 (ilog2 a) \<le> a" and "a < pow2 (ilog2 a + 1)"
proof -
  have "pow2 (ilog2 a) \<le> a \<and> a < pow2 (ilog2 a + 1)"
  proof (cases "1 \<le> a")
    case True
    let ?n = "\<lfloor>a\<rfloor>"
    from True have n: "0 < ?n" by simp
    from bitlen_bounds [OF n] have lo: "2 ^ nat (bitlen ?n - 1) \<le> ?n" and hi: "?n < 2 ^ nat (bitlen ?n)"
      by simp_all
    from n have b1: "1 \<le> bitlen ?n" by (auto simp: bitlen_alt_def)
    have "(of_int (2 ^ nat (bitlen ?n - 1)) :: rat) \<le> of_int ?n" using lo by (simp only: of_int_le_iff)
    also have "\<dots> \<le> a" by simp
    finally have l: "pow2 (bitlen ?n - 1) \<le> a" using b1 by (simp add: pow2_def)
    from hi have "?n + 1 \<le> 2 ^ nat (bitlen ?n)" by simp
    then have "(of_int (?n + 1) :: rat) \<le> of_int (2 ^ nat (bitlen ?n))" by (simp only: of_int_le_iff)
    moreover have "a < of_int (?n + 1)" by linarith
    ultimately have "a < of_int (2 ^ nat (bitlen ?n))" by linarith
    then have h: "a < pow2 (bitlen ?n)" using b1 by (simp add: pow2_def)
    from l h True show ?thesis by (simp add: ilog2_def)
  next
    case False
    let ?c = "\<lceil>1 / a\<rceil>"
    let ?m = "?c - 1"
    let ?b = "bitlen ?m"
    from False assms have inv: "1 < 1 / a" by simp
    then have "1 < ?c" by (simp add: less_ceiling_iff)
    then have m: "0 < ?m" by simp
    from bitlen_bounds [OF m] have lo: "2 ^ nat (?b - 1) \<le> ?m" and hi: "?m < 2 ^ nat ?b"
      by simp_all
    from m have b1: "1 \<le> ?b" by (auto simp: bitlen_alt_def)
    from hi have "?c \<le> 2 ^ nat ?b" by simp
    then have "(of_int ?c :: rat) \<le> of_int (2 ^ nat ?b)" by (simp only: of_int_le_iff)
    moreover have "1 / a \<le> of_int ?c" by simp
    moreover have "(of_int (2 ^ nat ?b) :: rat) = 2 ^ nat ?b" by simp
    ultimately have "1 / a \<le> 2 ^ nat ?b" by linarith
    with assms have "1 \<le> a * 2 ^ nat ?b" by (simp add: field_simps)
    then have l: "pow2 (- ?b) \<le> a" using b1 by (simp add: pow2_def field_simps)
    from lo have "2 ^ nat (?b - 1) < ?c" by simp
    then have "(of_int (2 ^ nat (?b - 1)) :: rat) < 1 / a" by (simp only: less_ceiling_iff)
    then have "(2 ^ nat (?b - 1) :: rat) < 1 / a" by simp
    with assms have "a * 2 ^ nat (?b - 1) < 1" by (simp add: field_simps)
    then have h: "a < pow2 (- ?b + 1)"
    proof (cases "?b = 1")
      case True
      with \<open>a * 2 ^ nat (?b - 1) < 1\<close> show ?thesis by (simp add: pow2_def)
    next
      case False
      with b1 have "- ?b + 1 < 0" by simp
      moreover have "nat (?b - 1) = nat (- (- ?b + 1))" by simp
      ultimately show ?thesis using \<open>a * 2 ^ nat (?b - 1) < 1\<close>
        by (simp add: pow2_def field_simps)
    qed
    from l h False show ?thesis by (simp add: ilog2_def)
  qed
  then show "pow2 (ilog2 a) \<le> a" and "a < pow2 (ilog2 a + 1)" by simp_all
qed

lemma ilog2_unique:
  assumes "0 < a" and "pow2 e \<le> a" and "a < pow2 (e + 1)"
  shows "ilog2 a = e"
proof -
  from ilog2_bounds [OF assms(1)] assms(2,3)
  have "pow2 (ilog2 a) < pow2 (e + 1)" and "pow2 e < pow2 (ilog2 a + 1)" by linarith+
  then have "ilog2 a < e + 1" and "e < ilog2 a + 1" by (simp_all add: pow2_less_iff)
  then show ?thesis by simp
qed

lemma roundHalfEven_int [simp]: "roundHalfEven (of_int m) = m"
  by (simp add: roundHalfEven_def)


lemma roundHalfEven_le: "q \<le> of_int m \<Longrightarrow> roundHalfEven q \<le> m"
proof -
  assume a: "q \<le> of_int m"
  then have f: "\<lfloor>q\<rfloor> \<le> m" by (simp add: floor_le_iff)
  show ?thesis
  proof (cases "\<lfloor>q\<rfloor> = m")
    case True
    with a have "q = of_int m" by (metis floor_le_iff order_antisym of_int_floor_le)
    then show ?thesis by simp
  next
    case False
    with f have "\<lfloor>q\<rfloor> + 1 \<le> m" by simp
    then show ?thesis by (auto simp: roundHalfEven_def Let_def)
  qed
qed

lemma roundHalfEven_ge: "of_int m \<le> q \<Longrightarrow> m \<le> roundHalfEven q"
proof -
  assume "of_int m \<le> q"
  then have "m \<le> \<lfloor>q\<rfloor>" by (simp add: le_floor_iff)
  then show ?thesis by (auto simp: roundHalfEven_def Let_def)
qed

lemma pow2_nonzero [simp]: "pow2 e \<noteq> 0"
  by (simp add: pow2_def)

lemma roundDouble_not_NaN [simp]: "roundDouble x \<noteq> NaN"
  by (simp add: roundDouble_def Let_def)

lemma ilog2_less: "0 < a \<Longrightarrow> a < pow2 k \<Longrightarrow> ilog2 a < k"
  using ilog2_bounds(1) [of a] pow2_less_iff [of "ilog2 a" k] by linarith

lemma ilog2_ge: "0 < a \<Longrightarrow> pow2 k \<le> a \<Longrightarrow> k \<le> ilog2 a"
proof -
  assume a: "0 < a" and k: "pow2 k \<le> a"
  from ilog2_bounds(2) [OF a] k have "pow2 k < pow2 (ilog2 a + 1)" by linarith
  then show ?thesis by (simp add: pow2_less_iff)
qed

lemma pow2_diff_int: "b \<le> a \<Longrightarrow> pow2 (a - b) = of_int (2 ^ nat (a - b))"
  by (simp add: pow2_def)

lemma div_by_inverse:
  fixes u :: rat
  assumes "u * J = 1"
  shows "x / u = x * J"
proof -
  from assms have "J = 1 / u" by (cases "u = 0") (simp_all add: field_simps)
  then show ?thesis by simp
qed

lemma pow2_div: "x / pow2 a = x * pow2 (- a)"
proof (rule div_by_inverse)
  show "pow2 a * pow2 (- a) = 1" using pow2_add [of a "- a"] by (simp add: pow2_def)
qed

text \<open>A mantissa of at most 53 bits with an exponent in range is a double.\<close>

lemma roundDouble_exact:
  assumes m: "\<bar>m\<bar> < 2 ^ 53" and k: "- 1074 \<le> k" and x: "x = of_int m * pow2 k"
    and lt: "\<bar>x\<bar> < 2 ^ 1024"
  shows "roundDouble x = Fin x"
proof (cases "x = 0")
  case True
  then show ?thesis by (simp add: roundDouble_def)
next
  case False
  let ?e = "max (ilog2 \<bar>x\<bar>) (- 1022)"
  let ?u = "pow2 (?e - 52)"
  from False have pos: "0 < \<bar>x\<bar>" by simp
  have p53: "(of_int (2 ^ 53) :: rat) = pow2 53" by (simp add: pow2_def)
  have "\<bar>x\<bar> = of_int \<bar>m\<bar> * pow2 k" using x by (simp add: abs_mult abs_of_pos)
  also have "\<dots> < of_int (2 ^ 53) * pow2 k"
    using m by (intro mult_strict_right_mono) (simp_all only: of_int_less_iff pow2_pos)
  also have "\<dots> = pow2 (53 + k)" unfolding p53 by (rule pow2_add [symmetric])
  finally have "ilog2 \<bar>x\<bar> < 53 + k" using pos by (intro ilog2_less)
  with k have le: "?e - 52 \<le> k" by simp
  have "x / ?u = of_int m * (pow2 k * pow2 (- (?e - 52)))" using x by (simp add: pow2_div)
  also have "pow2 k * pow2 (- (?e - 52)) = pow2 (k - (?e - 52))"
    using pow2_add [of k "- (?e - 52)"] by (simp add: algebra_simps)
  also have "\<dots> = of_int (2 ^ nat (k - (?e - 52)))" using le by (rule pow2_diff_int)
  finally have q: "x / ?u = of_int (m * 2 ^ nat (k - (?e - 52)))" by simp
  have "of_int (roundHalfEven (x / ?u)) * ?u = x / ?u * ?u"
    by (simp only: q roundHalfEven_int)
  also have "\<dots> = x" using pow2_pos [of "?e - 52"] by simp
  finally have r: "of_int (roundHalfEven (x / ?u)) * ?u = x" .
  from lt have "\<not> 2 ^ 1024 \<le> x" and "\<not> x \<le> - (2 ^ 1024)" by (simp_all add: abs_less_iff)
  with False r show ?thesis by (simp add: roundDouble_def Let_def)
qed

lemma roundDouble_dyadic:
  assumes "\<bar>k\<bar> < 2 ^ 53" and "j \<le> 1074"
  shows "roundDouble (of_int k / 2 ^ j) = Fin (of_int k / 2 ^ j)"
proof (rule roundDouble_exact [OF assms(1), of "- int j"])
  show "- 1074 \<le> - int j" using assms(2) by simp
  show "of_int k / 2 ^ j = of_int k * pow2 (- int j)"
    by (cases j) (simp_all add: pow2_def nat_add_distrib)
  have "\<bar>of_int k / (2::rat) ^ j\<bar> \<le> \<bar>of_int k\<bar>"
    by (simp add: abs_divide field_simps mult_le_cancel_left1) 
  also have "\<dots> = of_int \<bar>k\<bar>" by simp
  also have "\<dots> < of_int (2 ^ 53)" using assms(1) by (simp only: of_int_less_iff)
  also have "\<dots> < 2 ^ 1024" by simp
  finally show "\<bar>of_int k / (2::rat) ^ j\<bar> < 2 ^ 1024" .
qed

lemma roundDouble_int: "\<bar>k\<bar> < 2 ^ 53 \<Longrightarrow> roundDouble (of_int k) = Fin (of_int k)"
  using roundDouble_dyadic [of k 0] by simp

text \<open>Rounding stays within integer bounds below \<open>2^53\<close>.\<close>

lemma roundDouble_bounded:
  assumes "\<bar>x\<bar> \<le> of_int K" and "K < 2 ^ 53"
  shows "\<exists>y. roundDouble x = Fin y \<and> \<bar>y\<bar> \<le> of_int K"
proof (cases "x = 0")
  case True
  with assms(1) show ?thesis by (simp add: roundDouble_def)
next
  case False
  let ?e = "max (ilog2 \<bar>x\<bar>) (- 1022)"
  let ?u = "pow2 (?e - 52)"
  let ?J = "(2::int) ^ nat (52 - ?e)"
  from False have pos: "0 < \<bar>x\<bar>" by simp
  have "\<bar>x\<bar> \<le> of_int K" by fact
  also have "\<dots> < of_int (2 ^ 53)" using assms(2) by (simp only: of_int_less_iff)
  also have "\<dots> = pow2 53" by (simp add: pow2_def)
  finally have "ilog2 \<bar>x\<bar> < 53" using pos by (intro ilog2_less)
  then have e: "?e \<le> 52" by simp
  have uJ: "?u * of_int ?J = 1"
  proof -
    have "pow2 (52 - ?e) = of_int ?J" using e pow2_diff_int [of ?e 52] by simp
    then have "?u * of_int ?J = pow2 (?e - 52) * pow2 (52 - ?e)" by simp
    also have "\<dots> = pow2 0" by (simp add: pow2_add [symmetric])
    finally show ?thesis by (simp add: pow2_def)
  qed
  then have div: "x / ?u = x * of_int ?J" for x :: rat
    by (rule div_by_inverse)
  have Jpos: "(0::rat) < of_int ?J" by simp
  from assms(1) have "x \<le> of_int K" and "- of_int K \<le> x" by (simp_all add: abs_le_iff)
  then have "x * of_int ?J \<le> of_int K * of_int ?J" and "(- of_int K) * of_int ?J \<le> x * of_int ?J"
    using Jpos by (simp_all only: mult_right_mono less_imp_le)
  then have "x / ?u \<le> of_int (K * ?J)" and "of_int (- (K * ?J)) \<le> x / ?u"
    unfolding div by simp_all
  then have n: "roundHalfEven (x / ?u) \<le> K * ?J" "- (K * ?J) \<le> roundHalfEven (x / ?u)"
    by (simp_all only: roundHalfEven_le roundHalfEven_ge)
  let ?n = "roundHalfEven (x / ?u)"
  have "of_int ?n * ?u \<le> of_int (K * ?J) * ?u"
    using n(1) pow2_pos [of "?e - 52"] by (intro mult_right_mono) (simp_all only: of_int_le_iff less_imp_le)
  also have "\<dots> = of_int K * (?u * of_int ?J)" by simp
  finally have hi: "of_int ?n * ?u \<le> of_int K" by (simp only: uJ mult_1_right)
  have "of_int (- (K * ?J)) * ?u \<le> of_int ?n * ?u"
    using n(2) pow2_pos [of "?e - 52"] by (intro mult_right_mono) (simp_all only: of_int_le_iff less_imp_le)
  moreover have "of_int (- (K * ?J)) * ?u = - (of_int K * (?u * of_int ?J))" by simp
  ultimately have lo: "- of_int K \<le> of_int ?n * ?u" by (simp only: uJ mult_1_right)
  have "(of_int K :: rat) < of_int (2 ^ 53)" using assms(2) by (simp only: of_int_less_iff)
  also have "\<dots> < 2 ^ 1024" by simp
  finally have K: "(of_int K :: rat) < 2 ^ 1024" .
  from hi lo K have "\<not> 2 ^ 1024 \<le> of_int ?n * ?u" and "\<not> of_int ?n * ?u \<le> - (2 ^ 1024)"
    by linarith+
  with False have "roundDouble x = Fin (of_int ?n * ?u)" by (simp add: roundDouble_def Let_def)
  with hi lo show ?thesis by (simp add: abs_le_iff)
qed

lemma abs_less_bounds:
  fixes q :: rat
  assumes "\<bar>q\<bar> < of_int B"
  shows "q \<le> of_int B" and "of_int (- B) \<le> q"
  using assms by (simp_all add: abs_less_iff)

lemma top_mantissa:
  fixes n :: int
  assumes "\<bar>n\<bar> = 2 ^ 53"
  shows "n = 2 * (n div 2)" and "\<bar>n div 2\<bar> < 2 ^ 53"
proof -
  from assms have "n = 2 ^ 53 \<or> n = - (2 ^ 53)" by (simp add: abs_if split: if_splits)
  then show "n = 2 * (n div 2)" and "\<bar>n div 2\<bar> < 2 ^ 53" by auto
qed

lemma mantissa_bound:
  assumes "x \<noteq> 0"
  shows "\<bar>roundHalfEven (x / pow2 (max (ilog2 \<bar>x\<bar>) (- 1022) - 52))\<bar> \<le> 2 ^ 53"
proof -
  let ?e = "max (ilog2 \<bar>x\<bar>) (- 1022)"
  let ?u = "pow2 (?e - 52)"
  from assms have pos: "0 < \<bar>x\<bar>" by simp
  have "\<bar>x\<bar> < pow2 (ilog2 \<bar>x\<bar> + 1)" using pos by (rule ilog2_bounds(2))
  also have "\<dots> \<le> pow2 (?e + 1)" by (rule pow2_mono) simp
  also have "\<dots> = pow2 53 * ?u" using pow2_add [of 53 "?e - 52"] by (simp add: algebra_simps)
  finally have "\<bar>x\<bar> / ?u < pow2 53" by (simp add: pos_divide_less_eq)
  moreover have "\<bar>x\<bar> / ?u = \<bar>x / ?u\<bar>" by (simp add: abs_of_pos)
  moreover have "pow2 53 = of_int (2 ^ 53)" by (simp add: pow2_def)
  ultimately have "\<bar>x / ?u\<bar> < of_int (2 ^ 53)" by simp
  then have "x / ?u \<le> of_int (2 ^ 53)" and "of_int (- (2 ^ 53)) \<le> x / ?u"
    by (rule abs_less_bounds)+
  then have "roundHalfEven (x / ?u) \<le> 2 ^ 53" and "- (2 ^ 53) \<le> roundHalfEven (x / ?u)"
    by (simp_all only: roundHalfEven_le roundHalfEven_ge)
  then show ?thesis by (simp add: abs_le_iff)
qed

text \<open>A rounded number is a double: rounding it again changes nothing.\<close>

lemma roundDouble_idem:
  assumes "roundDouble x = Fin y"
  shows "roundDouble y = Fin y"
proof (cases "x = 0")
  case True
  with assms have "y = 0" by (simp add: roundDouble_def)
  then show ?thesis by (simp add: roundDouble_def)
next
  case False
  let ?e = "max (ilog2 \<bar>x\<bar>) (- 1022)"
  let ?u = "pow2 (?e - 52)"
  let ?n = "roundHalfEven (x / ?u)"
  from assms False have y: "y = of_int ?n * ?u" and lt: "\<bar>y\<bar> < 2 ^ 1024"
    by (auto simp: roundDouble_def Let_def abs_less_iff split: if_splits)
  from mantissa_bound [OF False] have n: "\<bar>?n\<bar> \<le> 2 ^ 53" .
  show ?thesis
  proof (cases "\<bar>?n\<bar> < 2 ^ 53")
    case True
    show ?thesis by (rule roundDouble_exact [OF True _ y lt]) simp
  next
    case False
    with n have eq: "\<bar>?n\<bar> = 2 ^ 53" by simp
    then have even: "?n = 2 * (?n div 2)" and half: "\<bar>?n div 2\<bar> < 2 ^ 53"
      by (rule top_mantissa)+
    have "pow2 (?e - 51) = 2 * ?u" using pow2_add [of 1 "?e - 52"] by (simp add: pow2_def algebra_simps)
    then have "of_int (?n div 2) * pow2 (?e - 51) = of_int (2 * (?n div 2)) * ?u" by simp
    also have "\<dots> = y" using even y by simp
    finally have y': "y = of_int (?n div 2) * pow2 (?e - 51)" by simp
    show ?thesis by (rule roundDouble_exact [OF half _ y' lt]) simp
  qed
qed

text \<open>Rounding does not cross a double: bounds with a significand of 53 bits are kept.\<close>

lemma roundDouble_between:
  assumes lo: "of_int L * pow2 k \<le> x" and hi: "x \<le> of_int K * pow2 k"
    and L: "\<bar>L\<bar> < 2 ^ 53" and K: "\<bar>K\<bar> < 2 ^ 53" and k: "- 1074 \<le> k" "k \<le> 971"
  shows "\<exists>y. roundDouble x = Fin y \<and> of_int L * pow2 k \<le> y \<and> y \<le> of_int K * pow2 k"
proof (cases "x = 0")
  case True
  with lo hi show ?thesis by (simp add: roundDouble_def)
next
  case False
  let ?e = "max (ilog2 \<bar>x\<bar>) (- 1022)"
  let ?u = "pow2 (?e - 52)"
  let ?J = "(2::int) ^ nat (k - (?e - 52))"
  let ?n = "roundHalfEven (x / ?u)"
  from False have pos: "0 < \<bar>x\<bar>" by simp
  have u0: "0 \<le> ?u" by (rule less_imp_le) (rule pow2_pos)
  have p53: "(of_int (2 ^ 53) :: rat) = pow2 53" by (simp add: pow2_def)
  have bK: "of_int K * pow2 k < pow2 (53 + k)"
  proof -
    from K have "K < 2 ^ 53" by simp
    then have "(of_int K :: rat) < of_int (2 ^ 53)" by (simp only: of_int_less_iff)
    then have "of_int K * pow2 k < of_int (2 ^ 53) * pow2 k"
      by (intro mult_strict_right_mono) (simp_all only: pow2_pos)
    then show ?thesis unfolding p53 by (simp only: pow2_add)
  qed
  have bL: "- pow2 (53 + k) < of_int L * pow2 k"
  proof -
    from L have "- (2 ^ 53) < L" by simp
    then have "(of_int (- (2 ^ 53)) :: rat) < of_int L" by (simp only: of_int_less_iff)
    then have "of_int (- (2 ^ 53)) * pow2 k < of_int L * pow2 k"
      by (intro mult_strict_right_mono) (simp_all only: pow2_pos)
    moreover have "(of_int (- (2 ^ 53)) :: rat) * pow2 k = - (pow2 53 * pow2 k)"
      by (simp add: pow2_def)
    ultimately show ?thesis by (simp only: pow2_add)
  qed
  from lo hi bK bL have "\<bar>x\<bar> < pow2 (53 + k)" by (simp only: abs_less_iff) linarith
  then have "ilog2 \<bar>x\<bar> < 53 + k" using pos by (intro ilog2_less)
  with k have le: "?e - 52 \<le> k" by simp
  have uJ: "pow2 k = of_int ?J * ?u"
  proof -
    have "pow2 k = pow2 (k - (?e - 52)) * ?u"
      using pow2_add [of "k - (?e - 52)" "?e - 52"] by simp
    also have "pow2 (k - (?e - 52)) = of_int ?J" using le by (rule pow2_diff_int)
    finally show ?thesis .
  qed
  have q: "of_int c * pow2 k / ?u = of_int (c * ?J)" for c :: int
    unfolding uJ by simp
  from lo have "of_int L * pow2 k / ?u \<le> x / ?u" by (rule divide_right_mono) (rule u0)
  moreover from hi have "x / ?u \<le> of_int K * pow2 k / ?u" by (rule divide_right_mono) (rule u0)
  ultimately have "of_int (L * ?J) \<le> x / ?u" and "x / ?u \<le> of_int (K * ?J)"
    by (simp_all only: q)
  then have n: "L * ?J \<le> ?n" "?n \<le> K * ?J"
    by (simp_all only: roundHalfEven_le roundHalfEven_ge)
  have y1: "of_int L * pow2 k \<le> of_int ?n * ?u"
  proof -
    have "of_int (L * ?J) * ?u \<le> of_int ?n * ?u"
      using n(1) by (intro mult_right_mono) (simp_all only: of_int_le_iff pow2_pos less_imp_le)
    then show ?thesis unfolding uJ by simp
  qed
  have y2: "of_int ?n * ?u \<le> of_int K * pow2 k"
  proof -
    have "of_int ?n * ?u \<le> of_int (K * ?J) * ?u"
      using n(2) by (intro mult_right_mono) (simp_all only: of_int_le_iff pow2_pos less_imp_le)
    then show ?thesis unfolding uJ by simp
  qed
  have "pow2 (53 + k) \<le> pow2 1024" using k by (intro pow2_mono) simp
  then have top: "pow2 (53 + k) \<le> 2 ^ 1024" by (simp add: pow2_def)
  from y1 y2 bK bL top have "\<not> 2 ^ 1024 \<le> of_int ?n * ?u" and "\<not> of_int ?n * ?u \<le> - (2 ^ 1024)"
    by linarith+
  with False have "roundDouble x = Fin (of_int ?n * ?u)" by (simp add: roundDouble_def Let_def)
  with y1 y2 show ?thesis by simp
qed


text \<open>
  \<^verbatim>\<open>Math.floor(Date.now() / 1000)\<close> is the integer quotient: the division rounds, but
  not across a whole number of seconds.
\<close>

lemma floor_roundDouble_div1000:
  assumes "0 \<le> n" and "n \<le> 8640000000000000"
  shows "\<exists>y. roundDouble (of_int n / 1000) = Fin y \<and> \<lfloor>y\<rfloor> = n div 1000"
proof -
  let ?q = "n div 1000"
  have r: "0 \<le> n mod 1000" "n mod 1000 \<le> 999" by simp_all
  from assms have q: "0 \<le> ?q" "?q \<le> 8640000000000" by simp_all
  have "(of_int n :: rat) = of_int (1000 * ?q + n mod 1000)" by simp
  also have "\<dots> = 1000 * of_int ?q + of_int (n mod 1000)"
    by (simp only: of_int_add of_int_mult of_int_numeral)
  finally have x: "(of_int n :: rat) / 1000 = of_int ?q + of_int (n mod 1000) / 1000"
    by (simp add: field_simps)
  have p10: "pow2 (- 10) = 1 / 1024" by (simp add: pow2_def)
  have lo: "of_int (1024 * ?q) * pow2 (- 10) \<le> (of_int n :: rat) / 1000"
    unfolding x p10 using r(1) by simp
  have "(of_int (n mod 1000) :: rat) \<le> 999" using r(2) by linarith
  then have hi: "(of_int n :: rat) / 1000 \<le> of_int (1024 * ?q + 1023) * pow2 (- 10)"
    unfolding x p10 by simp
  from q have L: "\<bar>1024 * ?q\<bar> < 2 ^ 53" and K: "\<bar>1024 * ?q + 1023\<bar> < 2 ^ 53" by simp_all
  from roundDouble_between [OF lo hi L K] obtain y where
    y: "roundDouble (of_int n / 1000) = Fin y"
    and y1: "of_int (1024 * ?q) * pow2 (- 10) \<le> y"
    and y2: "y \<le> of_int (1024 * ?q + 1023) * pow2 (- 10)"
    by auto
  from y1 have "of_int ?q \<le> y" unfolding p10 by simp
  moreover from y2 have "y < of_int ?q + 1" unfolding p10 by simp
  ultimately have "\<lfloor>y\<rfloor> = ?q" by (intro floor_unique)
  with y show ?thesis by simp
qed

text \<open>From \<open>2^1024\<close> on a number rounds to infinity.\<close>

lemma roundDouble_overflow:
  assumes "2 ^ 1024 \<le> x"
  shows "roundDouble x = PosInf"
proof -
  let ?e = "max (ilog2 \<bar>x\<bar>) (- 1022)"
  let ?u = "pow2 (?e - 52)"
  have p: "pow2 1024 = 2 ^ 1024" by (simp add: pow2_def)
  from assms have pos: "0 < x" by (simp add: less_le_trans [of 0 "2 ^ 1024"])
  then have ax: "\<bar>x\<bar> = x" by simp
  from assms pos have l: "1024 \<le> ilog2 x" unfolding p [symmetric] by (intro ilog2_ge)
  then have e: "1024 \<le> ?e" unfolding ax by simp
  from l have "max (ilog2 x) (- 1022) = ilog2 x" by simp
  with ilog2_bounds(1) [OF pos] have "pow2 ?e \<le> x" unfolding ax by simp
  moreover have "pow2 ?e = of_int (2 ^ 52) * ?u"
    using pow2_add [of 52 "?e - 52"] by (simp add: pow2_def)
  ultimately have "of_int (2 ^ 52) * ?u \<le> x" by simp
  then have "of_int (2 ^ 52) \<le> x / ?u" by (simp add: pos_le_divide_eq)
  then have "2 ^ 52 \<le> roundHalfEven (x / ?u)" by (rule roundHalfEven_ge)
  then have "(of_int (2 ^ 52) :: rat) \<le> of_int (roundHalfEven (x / ?u))" by (simp only: of_int_le_iff)
  then have "of_int (2 ^ 52) * ?u \<le> of_int (roundHalfEven (x / ?u)) * ?u"
    by (intro mult_right_mono) (simp_all only: pow2_pos less_imp_le)
  with \<open>pow2 ?e = of_int (2 ^ 52) * ?u\<close> have "pow2 ?e \<le> of_int (roundHalfEven (x / ?u)) * ?u" by simp
  moreover have "pow2 1024 \<le> pow2 ?e" using e by (rule pow2_mono)
  ultimately have "2 ^ 1024 \<le> of_int (roundHalfEven (x / ?u)) * ?u" unfolding p [symmetric] by linarith
  with pos show ?thesis by (simp add: roundDouble_def Let_def)
qed

lemma roundDouble_numeral:
  "numeral n < (2::int) ^ 53 \<Longrightarrow> roundDouble (numeral n) = Fin (numeral n)"
  using roundDouble_int [of "numeral n"] by simp

lemma roundDouble_one [simp]: "roundDouble 1 = Fin 1"
  using roundDouble_int [of 1] by simp

lemma abs_diff_bounds:
  fixes q c d :: rat
  assumes "\<bar>q - c\<bar> < d"
  shows "c - d < q" and "q < c + d"
proof -
  from assms have "q - c < d \<and> - (q - c) < d" by (simp only: abs_less_iff)
  then show "c - d < q" and "q < c + d" by linarith+
qed

lemma roundHalfEven_nearest:
  assumes "\<bar>q - of_int n\<bar> < 1 / 2"
  shows "roundHalfEven q = n"
proof -
  note b = abs_diff_bounds [OF assms]
  show ?thesis
  proof (cases "of_int n \<le> q")
    case True
    from b(2) have "q < of_int n + 1" by linarith
    with True have f: "\<lfloor>q\<rfloor> = n" by (intro floor_unique)
    from b(2) have "q - of_int n < 1 / 2" by linarith
    with f show ?thesis by (simp add: roundHalfEven_def Let_def)
  next
    case False
    have m: "(of_int (n - 1) :: rat) = of_int n - 1" by simp
    from b(1) have "of_int (n - 1) \<le> q" unfolding m by linarith
    moreover from False have "q < of_int (n - 1) + 1" unfolding m by linarith
    ultimately have f: "\<lfloor>q\<rfloor> = n - 1" by (intro floor_unique)
    from b(1) have "1 / 2 < q - of_int (n - 1)" unfolding m by linarith
    with f show ?thesis by (simp add: roundHalfEven_def Let_def)
  qed
qed

text \<open>A certificate for the rounding of a number in the range of the normal doubles.\<close>

lemma roundDouble_nearest:
  assumes k: "- 1074 \<le> k" "k \<le> 970"
    and lo: "pow2 (k + 52) \<le> \<bar>x\<bar>" and hi: "\<bar>x\<bar> < pow2 (k + 53)"
    and n: "\<bar>x / pow2 k - of_int n\<bar> < 1 / 2"
  shows "roundDouble x = Fin (of_int n * pow2 k)"
proof -
  have pos: "0 < \<bar>x\<bar>" using lo pow2_pos [of "k + 52"] by linarith
  then have x0: "x \<noteq> 0" by simp
  have "ilog2 \<bar>x\<bar> = k + 52" using pos lo hi by (intro ilog2_unique) (simp_all add: add.commute add.left_commute)
  with k have e: "max (ilog2 \<bar>x\<bar>) (- 1022) - 52 = k" by simp
  have r: "roundHalfEven (x / pow2 k) = n" using n by (rule roundHalfEven_nearest)
  have "\<bar>x\<bar> / pow2 k < pow2 53"
    using hi pow2_add [of 53 k] by (simp add: pos_divide_less_eq add.commute)
  moreover have "\<bar>x\<bar> / pow2 k = \<bar>x / pow2 k\<bar>" by (simp add: abs_of_pos)
  moreover have "pow2 53 = 2 ^ 53" by (simp add: pow2_def)
  ultimately have q: "\<bar>x / pow2 k\<bar> < 2 ^ 53" by simp
  have "\<bar>(of_int n :: rat)\<bar> < 2 ^ 53 + 1"
    using abs_diff_bounds [OF n] q by linarith
  moreover have "(of_int (2 ^ 53 + 1) :: rat) = 2 ^ 53 + 1" by simp
  ultimately have "\<bar>(of_int n :: rat)\<bar> < of_int (2 ^ 53 + 1)" by (simp only:)
  then have "\<bar>n\<bar> < 2 ^ 53 + 1" by (simp only: of_int_abs [symmetric] of_int_less_iff)
  then have nb: "\<bar>n\<bar> \<le> 2 ^ 53" by simp
  have "\<bar>of_int n * pow2 k\<bar> = of_int \<bar>n\<bar> * pow2 k" by (simp add: abs_mult abs_of_pos)
  also have "\<dots> \<le> of_int (2 ^ 53) * pow2 k"
    using nb by (intro mult_right_mono) (simp_all only: of_int_le_iff pow2_pos less_imp_le)
  also have "of_int (2 ^ 53) * pow2 k = pow2 53 * pow2 k" by (simp add: pow2_def)
  also have "\<dots> = pow2 (53 + k)" by (rule pow2_add [symmetric])
  also have "\<dots> \<le> pow2 1023" using k by (intro pow2_mono) simp
  also have "\<dots> < 2 ^ 1024" by (simp add: pow2_def)
  finally have lt: "\<bar>of_int n * pow2 k\<bar> < 2 ^ 1024" .
  then have "\<not> 2 ^ 1024 \<le> of_int n * pow2 k" and "\<not> of_int n * pow2 k \<le> - (2 ^ 1024)" by linarith+
  with x0 e r show ?thesis by (simp add: roundDouble_def Let_def)
qed

section \<open>Properties of the retry loop\<close>

lemma before_Inr [simp]: "before evs (Inr u) = Inr (u\<lparr>trace := evs @ trace u\<rparr>)"
  by (simp add: before_def)

lemma attemptLoop_exhausted:
  "\<not> k \<le> n \<Longrightarrow> attemptLoop cid env n k docs = Inr \<lparr>outcome = Failed, docsAfter = docs, trace = []\<rparr>"
  by (subst attemptLoop.simps) simp

lemma attemptLoop_raise_last:
  "tryBody cid (env n) docs = (docs', Inl e) \<Longrightarrow>
   attemptLoop cid env n n docs = Inr \<lparr>outcome = Failed, docsAfter = docs', trace = [Attempt n]\<rparr>"
  by (subst attemptLoop.simps) simp

lemma attemptLoop_raise_retry:
  "k < n \<Longrightarrow> tryBody cid (env k) docs = (docs', Inl e) \<Longrightarrow>
   attemptLoop cid env n k docs =
     before [Attempt k, Sleep (k * 2000)] (attemptLoop cid env n (Suc k) docs')"
  by (subst attemptLoop.simps) simp

lemma attemptLoop_continue:
  "k \<le> n \<Longrightarrow> tryBody cid (env k) docs = (docs', Inr Continue) \<Longrightarrow>
   attemptLoop cid env n k docs = before [Attempt k] (attemptLoop cid env n (Suc k) docs')"
  by (subst attemptLoop.simps) simp

lemma attemptLoop_applied:
  "k \<le> n \<Longrightarrow> tryBody cid (env k) docs = (docs', Inr (ReturnResult res)) \<Longrightarrow>
   attemptLoop cid env n k docs =
     Inr \<lparr>outcome = Applied res, docsAfter = docs', trace = [Attempt k]\<rparr>"
  by (subst attemptLoop.simps) simp

lemma attemptLoop_nodata:
  "k \<le> n \<Longrightarrow> tryBody cid (env k) docs = (docs', Inr ReturnNull) \<Longrightarrow>
   attemptLoop cid env n k docs =
     Inr \<lparr>outcome = NoData, docsAfter = docs', trace = [Attempt k]\<rparr>"
  by (subst attemptLoop.simps) simp

text \<open>Case analysis of one attempt.\<close>

lemma tryBody_cases:
  obtains (raise) docs' e where "tryBody cid a docs = (docs', Inl e)"
  | (continue) docs' where "tryBody cid a docs = (docs', Inr Continue)"
  | (applied) docs' res where "tryBody cid a docs = (docs', Inr (ReturnResult res))"
  | (nodata) docs' where "tryBody cid a docs = (docs', Inr ReturnNull)"
proof (cases "tryBody cid a docs")
  case (Pair docs' r)
  show ?thesis
  proof (cases r)
    case (Inl e) with Pair raise show ?thesis by simp
  next
    case (Inr x)
    with Pair continue applied nodata show ?thesis by (cases x) simp_all
  qed
qed

lemma attemptLoop_returns: "\<exists>u. attemptLoop cid env n k docs = Inr u"
proof (induction "Suc n - k" arbitrary: k docs)
  case 0
  then have "\<not> k \<le> n" by simp
  then show ?case by (simp add: attemptLoop_exhausted)
next
  case (Suc m)
  then have le: "k \<le> n" and m: "m = Suc n - Suc k" by simp_all
  show ?case
  proof (cases rule: tryBody_cases [of cid "env k" docs])
    case (raise docs' e)
    show ?thesis
    proof (cases "k = n")
      case True
      with raise show ?thesis by (simp add: attemptLoop_raise_last)
    next
      case False
      with le have "k < n" by simp
      moreover from Suc.hyps(1) [OF m] obtain u where "attemptLoop cid env n (Suc k) docs' = Inr u" by blast
      ultimately show ?thesis using raise by (simp add: attemptLoop_raise_retry)
    qed
  next
    case (continue docs')
    from Suc.hyps(1) [OF m] obtain u where "attemptLoop cid env n (Suc k) docs' = Inr u" by blast
    with continue le show ?thesis by (simp add: attemptLoop_continue)
  next
    case (applied docs' res)
    with le show ?thesis by (simp add: attemptLoop_applied)
  next
    case (nodata docs')
    with le show ?thesis by (simp add: attemptLoop_nodata)
  qed
qed


lemma bulkWrite_raises_indep:
  "isl (snd (bulkWrite fails ops docs)) = (\<exists>i < length ops. fails i)"
  by (auto simp: bulkWrite_def split: prod.splits)

lemma bulkWrite_Inl: "bulkWrite fails ops docs = (docs', Inl e) \<Longrightarrow> \<exists>i < length ops. fails i"
  using bulkWrite_raises_indep [of fails ops docs] by simp

lemma bulkWrite_Inr: "bulkWrite fails ops docs = (docs', Inr res) \<Longrightarrow> \<not> (\<exists>i < length ops. fails i)"
  using bulkWrite_raises_indep [of fails ops docs] by simp

lemma tryBody_raises_indep: "isl (snd (tryBody cid a docs)) = attemptRaises cid a"
proof -
  have "isl (snd (tryBody cid a d1)) = isl (snd (tryBody cid a d2))" for d1 d2
    by (auto simp: tryBody_def Let_def dest: bulkWrite_Inl bulkWrite_Inr
        split: fetch_outcome.splits response_data.splits sum.splits prod.splits)
  then show ?thesis unfolding attemptRaises_def by blast
qed

lemma tryBody_soft: "isSoft a \<Longrightarrow> tryBody cid a docs = (docs, Inr Continue)"
  by (auto simp: isSoft_def tryBody_def)

lemma tryBody_rejected: "isRejected a \<Longrightarrow> \<exists>e. tryBody cid a docs = (docs, Inl e)"
  by (auto simp: isRejected_def tryBody_def split: fetch_outcome.splits)

lemma soft_not_raises: "isSoft a \<Longrightarrow> \<not> attemptRaises cid a"
  using tryBody_soft [of a cid "[]"] by (simp add: attemptRaises_def)

lemma rejected_raises: "isRejected a \<Longrightarrow> attemptRaises cid a"
  using tryBody_rejected [of a cid "[]"] by (auto simp: attemptRaises_def)

lemma upt_cons: "k \<le> m \<Longrightarrow> [k..<Suc m] = k # [Suc k..<Suc m]"
  by (simp add: upt_conv_Cons)

lemma loop_trace_shape:
  assumes "attemptLoop cid env n k docs = Inr u" and "k \<le> Suc n"
  shows "\<exists>m. k \<le> Suc m \<and> m \<le> n
           \<and> trace u = concat (map (segment cid env n) [k..<Suc m])
           \<and> (m = n \<and> k \<le> n \<and> attemptRaises cid (env n) \<longrightarrow> outcome u = Failed)
           \<and> (m < n \<longrightarrow> outcome u \<noteq> Failed \<and> \<not> isSoft (env m) \<and> \<not> attemptRaises cid (env m))"
  using assms
proof (induction "Suc n - k" arbitrary: k docs u)
  case 0
  then have k: "k = Suc n" by simp
  with 0 have "u = \<lparr>outcome = Failed, docsAfter = docs, trace = []\<rparr>"
    by (simp add: attemptLoop_exhausted)
  with k show ?case by (intro exI [of _ n]) simp
next
  case (Suc x)
  then have le: "k \<le> n" and x: "x = Suc n - Suc k" by simp_all
  have ri: "attemptRaises cid (env k) = isl (snd (tryBody cid (env k) docs))"
    by (simp add: tryBody_raises_indep)
  show ?case
  proof (cases rule: tryBody_cases [of cid "env k" docs])
    case (raise docs' e)
    then have r: "attemptRaises cid (env k)" by (simp add: ri)
    show ?thesis
    proof (cases "k = n")
      case True
      with raise Suc.prems have "u = \<lparr>outcome = Failed, docsAfter = docs', trace = [Attempt n]\<rparr>"
        by (simp add: attemptLoop_raise_last)
      with True show ?thesis by (intro exI [of _ n]) (simp add: segment_def)
    next
      case False
      with le have lt: "k < n" by simp
      from attemptLoop_returns obtain v where v: "attemptLoop cid env n (Suc k) docs' = Inr v" by blast
      with raise lt Suc.prems have u: "u = v\<lparr>trace := [Attempt k, Sleep (k * 2000)] @ trace v\<rparr>"
        by (simp add: attemptLoop_raise_retry)
      from Suc.hyps(1) [OF x v] lt obtain m where
        m: "Suc k \<le> Suc m" "m \<le> n" "trace v = concat (map (segment cid env n) [Suc k..<Suc m])"
           "m = n \<and> Suc k \<le> n \<and> attemptRaises cid (env n) \<longrightarrow> outcome v = Failed"
           "m < n \<longrightarrow> outcome v \<noteq> Failed \<and> \<not> isSoft (env m) \<and> \<not> attemptRaises cid (env m)" by auto
      from m(1) have "k \<le> m" by simp
      with u m r lt show ?thesis
        by (intro exI [of _ m]) (simp add: upt_cons segment_def del: upt_Suc)
    qed
  next
    case (continue docs')
    then have r: "\<not> attemptRaises cid (env k)" by (simp add: ri)
    from attemptLoop_returns obtain v where v: "attemptLoop cid env n (Suc k) docs' = Inr v" by blast
    with continue le Suc.prems have u: "u = v\<lparr>trace := [Attempt k] @ trace v\<rparr>"
      by (simp add: attemptLoop_continue)
    from Suc.hyps(1) [OF x v] le obtain m where
      m: "Suc k \<le> Suc m" "m \<le> n" "trace v = concat (map (segment cid env n) [Suc k..<Suc m])"
         "m = n \<and> Suc k \<le> n \<and> attemptRaises cid (env n) \<longrightarrow> outcome v = Failed"
         "m < n \<longrightarrow> outcome v \<noteq> Failed \<and> \<not> isSoft (env m) \<and> \<not> attemptRaises cid (env m)" by auto
    from m(1) have km: "k \<le> m" by simp
    show ?thesis
    proof (cases "k = n")
      case True
      with km m(2) have "m = n" by simp
      with u m r True km show ?thesis
        by (intro exI [of _ m]) (simp add: upt_cons segment_def del: upt_Suc)
    next
      case False
      with le have "Suc k \<le> n" by simp
      with u m r km show ?thesis
        by (intro exI [of _ m]) (simp add: upt_cons segment_def del: upt_Suc)
    qed
  next
    case (applied docs' res)
    then have r: "\<not> attemptRaises cid (env k)" by (simp add: ri)
    from applied le Suc.prems have "u = \<lparr>outcome = Applied res, docsAfter = docs', trace = [Attempt k]\<rparr>"
      by (simp add: attemptLoop_applied)
    moreover from applied have "\<not> isSoft (env k)" using tryBody_soft [of "env k" cid docs] by auto
    ultimately show ?thesis using r le by (intro exI [of _ k]) (auto simp: segment_def)
  next
    case (nodata docs')
    then have r: "\<not> attemptRaises cid (env k)" by (simp add: ri)
    from nodata le Suc.prems have "u = \<lparr>outcome = NoData, docsAfter = docs', trace = [Attempt k]\<rparr>"
      by (simp add: attemptLoop_nodata)
    moreover from nodata have "\<not> isSoft (env k)" using tryBody_soft [of "env k" cid docs] by auto
    ultimately show ?thesis using r le by (intro exI [of _ k]) (auto simp: segment_def)
  qed
qed


lemma loop_all_fail:
  assumes "\<forall>j. k \<le> j \<and> j \<le> n \<longrightarrow> isRejected (env j) \<or> isSoft (env j)" and "k \<le> Suc n"
  shows "\<exists>tr. attemptLoop cid env n k docs = Inr \<lparr>outcome = Failed, docsAfter = docs, trace = tr\<rparr>
           \<and> attemptsIn tr = [k..<Suc n]
           \<and> ((\<forall>j. k \<le> j \<and> j \<le> n \<longrightarrow> isSoft (env j)) \<longrightarrow> tr = map Attempt [k..<Suc n])"
  using assms
proof (induction "Suc n - k" arbitrary: k)
  case 0
  then have "k = Suc n" by simp
  then show ?case by (simp add: attemptLoop_exhausted)
next
  case (Suc x)
  then have le: "k \<le> n" and x: "x = Suc n - Suc k" by simp_all
  from Suc.prems(1) have rest: "\<forall>j. Suc k \<le> j \<and> j \<le> n \<longrightarrow> isRejected (env j) \<or> isSoft (env j)"
    by simp
  from le have sk: "Suc k \<le> Suc n" by simp
  from Suc.hyps(1) [OF x rest sk] obtain tr where
    tr: "attemptLoop cid env n (Suc k) docs = Inr \<lparr>outcome = Failed, docsAfter = docs, trace = tr\<rparr>"
        "attemptsIn tr = [Suc k..<Suc n]"
        "(\<forall>j. Suc k \<le> j \<and> j \<le> n \<longrightarrow> isSoft (env j)) \<longrightarrow> tr = map Attempt [Suc k..<Suc n]"
    by blast
  from Suc.prems(1) le have "isRejected (env k) \<or> isSoft (env k)" by simp
  then show ?case
  proof
    assume rej: "isRejected (env k)"
    then obtain e where tb: "tryBody cid (env k) docs = (docs, Inl e)"
      using tryBody_rejected by blast
    from rej have ns: "\<not> isSoft (env k)"
      by (auto simp: isRejected_def isSoft_def)
    show ?thesis
    proof (cases "k = n")
      case True
      with tb ns show ?thesis by (auto simp: attemptLoop_raise_last)
    next
      case False
      with le have "k < n" by simp
      with tb tr ns le show ?thesis
        by (auto simp: attemptLoop_raise_retry upt_cons simp del: upt_Suc)
    qed
  next
    assume soft: "isSoft (env k)"
    then have tb: "tryBody cid (env k) docs = (docs, Inr Continue)" by (rule tryBody_soft)
    have all: "(\<forall>j. k \<le> j \<and> j \<le> n \<longrightarrow> isSoft (env j)) \<Longrightarrow> (\<forall>j. Suc k \<le> j \<and> j \<le> n \<longrightarrow> isSoft (env j))"
      by simp
    from tb tr le all show ?thesis
      by (auto simp: attemptLoop_continue upt_cons simp del: upt_Suc)
  qed
qed


lemma trace_members:
  assumes "tr = concat (map (segment cid env n) [1..<Suc m])"
  shows "(Attempt k \<in> set tr \<longleftrightarrow> 1 \<le> k \<and> k \<le> m)"
    and "(Sleep ms \<in> set tr \<longleftrightarrow>
           (\<exists>k. 1 \<le> k \<and> k \<le> m \<and> attemptRaises cid (env k) \<and> k < n \<and> ms = k * 2000))"
  using assms by (auto simp: segment_def split: if_splits)

text \<open>
  C2. For every chain and every number of attempts \<open>n\<close>, \<^verbatim>\<open>updateTpsData\<close> returns to its
  caller: no exception leaves it. When \<open>n \<ge> 1\<close> and \<^verbatim>\<open>axios.get\<close> rejects on each of the
  \<open>n\<close> attempts, the call ends as failed (it returns \<^verbatim>\<open>null\<close>) after exactly the
  attempts \<open>1, ..., n\<close>, and the collection is as before.
\<close>

theorem updateTpsData_never_raises:
  "\<exists>u. updateTpsData cid n env docs = Inr u
        \<and> (1 \<le> n \<and> (\<forall>k. 1 \<le> k \<and> k \<le> n \<longrightarrow> isRejected (env k))
             \<longrightarrow> outcome u = Failed \<and> returnValue (outcome u) = None
                 \<and> attemptsIn (trace u) = [1..<Suc n] \<and> docsAfter u = docs)"
proof (cases "1 \<le> n \<and> (\<forall>k. 1 \<le> k \<and> k \<le> n \<longrightarrow> isRejected (env k))")
  case True
  then have "\<forall>j. 1 \<le> j \<and> j \<le> n \<longrightarrow> isRejected (env j) \<or> isSoft (env j)" by simp
  from loop_all_fail [OF this, of cid docs] show ?thesis
    by (auto simp: updateTpsData_def)
next
  case False
  with attemptLoop_returns [of cid env n 1 docs] show ?thesis
    by (auto simp: updateTpsData_def)
qed

theorem updateTpsData_never_raises_witness:
  "\<exists>u. updateTpsData ''43114'' 3 providerDown [] = Inr u
        \<and> outcome u = Failed \<and> returnValue (outcome u) = None
        \<and> attemptsIn (trace u) = [1, 2, 3] \<and> docsAfter u = []"
  using updateTpsData_never_raises [of "''43114''" 3 providerDown "[]"]
  by (simp add: isRejected_def providerDown_def upt_rec numeral_2_eq_2 numeral_3_eq_3)

text \<open>
  C8. The trace of a call is, for the attempts \<open>1, ..., m\<close> that were made, in order: the
  attempt, followed by a wait of \<open>attempt * 2000\<close> ms exactly when that attempt raised
  an exception and \<open>attempt < n\<close>. A response without the expected shape does not
  raise, a rejected request does. When the last allowed attempt raises, nothing
  follows it in the trace and the call ends as failed; a call that stops before the
  last allowed attempt did not fail.
\<close>

theorem backoff_after_raised_attempts:
  assumes "updateTpsData cid n env docs = Inr u"
  shows "(\<exists>m \<le> n.
            trace u =
              concat (map (\<lambda>k. Attempt k #
                             (if attemptRaises cid (env k) \<and> k < n then [Sleep (k * 2000)] else []))
                        [1..<Suc m])
            \<and> (m = n \<and> 0 < n \<and> attemptRaises cid (env n) \<longrightarrow> outcome u = Failed)
            \<and> (m < n \<longrightarrow> outcome u \<noteq> Failed))
         \<and> (\<forall>k. isSoft (env k) \<longrightarrow> \<not> attemptRaises cid (env k))
         \<and> (\<forall>k. isRejected (env k) \<longrightarrow> attemptRaises cid (env k))"
proof -
  from assms have "attemptLoop cid env n 1 docs = Inr u" by (simp add: updateTpsData_def)
  from loop_trace_shape [OF this] obtain m where
    "m \<le> n" "trace u = concat (map (segment cid env n) [1..<Suc m])"
    "m = n \<and> 1 \<le> n \<and> attemptRaises cid (env n) \<longrightarrow> outcome u = Failed"
    "m < n \<longrightarrow> outcome u \<noteq> Failed" by auto
  then have "\<exists>m \<le> n.
            trace u =
              concat (map (\<lambda>k. Attempt k #
                             (if attemptRaises cid (env k) \<and> k < n then [Sleep (k * 2000)] else []))
                        [1..<Suc m])
            \<and> (m = n \<and> 0 < n \<and> attemptRaises cid (env n) \<longrightarrow> outcome u = Failed)
            \<and> (m < n \<longrightarrow> outcome u \<noteq> Failed)"
    unfolding segment_def [abs_def] by (intro exI [of _ m]) auto
  then show ?thesis using soft_not_raises rejected_raises by blast
qed

theorem backoff_after_raised_attempts_witness:
  "updateTpsData ''43114'' 3 flakyProvider [] =
     Inr \<lparr>outcome = Failed, docsAfter = [],
          trace = [Attempt 1, Sleep 2000, Attempt 2, Attempt 3]\<rparr>
   \<and> (\<exists>m \<le> 3.
         [Attempt 1, Sleep 2000, Attempt 2, Attempt 3] =
           concat (map (\<lambda>k. Attempt k #
                          (if attemptRaises ''43114'' (flakyProvider k) \<and> k < 3
                           then [Sleep (k * 2000)] else []))
                     [1..<Suc m]))"
proof -
  have run: "updateTpsData ''43114'' 3 flakyProvider [] =
     Inr \<lparr>outcome = Failed, docsAfter = [],
          trace = [Attempt 1, Sleep 2000, Attempt 2, Attempt 3]\<rparr>"
    by (simp add: updateTpsData_def attemptLoop.simps tryBody_def flakyProvider_def)
  from backoff_after_raised_attempts [OF run] show ?thesis using run by auto
qed

text \<open>
  C9. A response without the expected shape (no body, or \<^verbatim>\<open>results\<close> not an array)
  never makes the call raise. When such an attempt is not the last allowed one, the
  next attempt is made, with no wait in between. When every attempt meets either such
  a response or a rejected request, the call ends as failed after exactly the attempts
  \<open>1, ..., n\<close>, the budget of the rejected requests, with the collection unchanged;
  when every attempt meets such a response the trace is these attempts and nothing else.
\<close>

theorem shape_mismatch_is_retried:
  "\<exists>u. updateTpsData cid n env docs = Inr u
        \<and> (\<forall>k. k < n \<and> Attempt k \<in> set (trace u) \<and> isSoft (env k)
               \<longrightarrow> Attempt (Suc k) \<in> set (trace u) \<and> Sleep (k * 2000) \<notin> set (trace u))
        \<and> ((\<forall>k. 1 \<le> k \<and> k \<le> n \<longrightarrow> isSoft (env k) \<or> isRejected (env k))
             \<longrightarrow> outcome u = Failed \<and> attemptsIn (trace u) = [1..<Suc n] \<and> docsAfter u = docs)
        \<and> ((\<forall>k. 1 \<le> k \<and> k \<le> n \<longrightarrow> isSoft (env k)) \<longrightarrow> trace u = map Attempt [1..<Suc n])"
proof -
  from attemptLoop_returns obtain u where u: "attemptLoop cid env n 1 docs = Inr u" by blast
  from loop_trace_shape [OF u] obtain m where
    m: "m \<le> n" "trace u = concat (map (segment cid env n) [1..<Suc m])"
       "m < n \<longrightarrow> \<not> isSoft (env m)" by auto
  have a: "Attempt (Suc k) \<in> set (trace u) \<and> Sleep (k * 2000) \<notin> set (trace u)"
    if "k < n" "Attempt k \<in> set (trace u)" "isSoft (env k)" for k
  proof -
    from that(2) have k: "1 \<le> k" "k \<le> m" using trace_members(1) [OF m(2)] by auto
    with that(1,3) m(3) have "k \<noteq> m" by auto
    with k have "Suc k \<le> m" by simp
    then have "Attempt (Suc k) \<in> set (trace u)" using trace_members(1) [OF m(2)] by auto
    moreover have "Sleep (k * 2000) \<notin> set (trace u)"
      using trace_members(2) [OF m(2)] soft_not_raises [OF that(3)] by auto
    ultimately show ?thesis by simp
  qed
  have b: "outcome u = Failed \<and> attemptsIn (trace u) = [1..<Suc n] \<and> docsAfter u = docs"
    if "\<forall>k. 1 \<le> k \<and> k \<le> n \<longrightarrow> isSoft (env k) \<or> isRejected (env k)"
  proof -
    from that have "\<forall>j. 1 \<le> j \<and> j \<le> n \<longrightarrow> isRejected (env j) \<or> isSoft (env j)" by blast
    from loop_all_fail [OF this, of cid docs] u show ?thesis by auto
  qed
  have c: "trace u = map Attempt [1..<Suc n]" if "\<forall>k. 1 \<le> k \<and> k \<le> n \<longrightarrow> isSoft (env k)"
  proof -
    from that have "\<forall>j. 1 \<le> j \<and> j \<le> n \<longrightarrow> isRejected (env j) \<or> isSoft (env j)" by blast
    from loop_all_fail [OF this, of cid docs] u that show ?thesis by auto
  qed
  from u a b c show ?thesis unfolding updateTpsData_def by blast
qed

theorem shape_mismatch_is_retried_witness:
  "\<exists>u. updateTpsData ''43114'' 3 malformedProvider [] = Inr u
        \<and> outcome u = Failed \<and> docsAfter u = []
        \<and> trace u = [Attempt 1, Attempt 2, Attempt 3]"
proof -
  have soft: "\<forall>k. 1 \<le> k \<and> k \<le> 3 \<longrightarrow> isSoft (malformedProvider k)"
    by (simp add: isSoft_def malformedProvider_def)
  then have both: "\<forall>k. 1 \<le> k \<and> k \<le> 3 \<longrightarrow> isSoft (malformedProvider k) \<or> isRejected (malformedProvider k)"
    by blast
  from shape_mismatch_is_retried [of "''43114''" 3 malformedProvider "[]"] obtain u where
    "updateTpsData ''43114'' 3 malformedProvider [] = Inr u"
    "(\<forall>k. 1 \<le> k \<and> k \<le> 3 \<longrightarrow> isSoft (malformedProvider k) \<or> isRejected (malformedProvider k))
       \<longrightarrow> outcome u = Failed \<and> attemptsIn (trace u) = [1..<Suc 3] \<and> docsAfter u = []"
    "(\<forall>k. 1 \<le> k \<and> k \<le> 3 \<longrightarrow> isSoft (malformedProvider k)) \<longrightarrow> trace u = map Attempt [1..<Suc 3]"
    by blast
  with soft both show ?thesis
    by (auto simp: upt_rec numeral_2_eq_2 numeral_3_eq_3)
qed

section \<open>Properties of the store\<close>

lemma matchesFilter_key: "matchesFilter opn d \<longleftrightarrow> docKey d = (filterChainId opn, filterTimestamp opn)"
  by (auto simp: matchesFilter_def docKey_def)

lemma docKey_applySet [simp]: "docKey (applySet opn d) = docKey d"
  by (simp add: applySet_def docKey_def)

lemma docKey_insertedDoc [simp]: "docKey (insertedDoc opn) = (filterChainId opn, filterTimestamp opn)"
  by (simp add: insertedDoc_def docKey_def)

lemma keys_updateFirst [simp]: "map docKey (updateFirst opn docs) = map docKey docs"
  by (induction docs) auto

lemma length_updateFirst [simp]: "length (updateFirst opn docs) = length docs"
  by (induction docs) auto

lemma find_None_key:
  "find (matchesFilter opn) docs = None \<longleftrightarrow> (filterChainId opn, filterTimestamp opn) \<notin> set (map docKey docs)"
  by (force simp: find_None_iff matchesFilter_key)

lemma updateOneUpsert_keys:
  "map docKey (fst (updateOneUpsert opn (docs, res))) =
     (if (filterChainId opn, filterTimestamp opn) \<in> set (map docKey docs) then map docKey docs
      else map docKey docs @ [(filterChainId opn, filterTimestamp opn)])"
proof (cases "find (matchesFilter opn) docs")
  case None
  then show ?thesis using find_None_key [of opn docs] by (simp add: updateOneUpsert_def)
next
  case (Some d)
  then have "(filterChainId opn, filterTimestamp opn) \<in> set (map docKey docs)"
    using find_None_key [of opn docs] by auto
  with Some show ?thesis by (simp add: updateOneUpsert_def)
qed

lemma updateOneUpsert_unique:
  "uniqueKeys docs \<Longrightarrow> uniqueKeys (fst (updateOneUpsert opn (docs, res)))"
  unfolding uniqueKeys_def by (simp add: updateOneUpsert_keys)

lemma bulkApply_unique:
  "uniqueKeys (fst st) \<Longrightarrow> uniqueKeys (fst (bulkApply fails i ops st))"
proof (induction ops arbitrary: i st)
  case Nil
  then show ?case by simp
next
  case (Cons opn ops)
  obtain docs res where st: "st = (docs, res)" by (cases st)
  with Cons.prems have "uniqueKeys (fst (if fails i then st else updateOneUpsert opn st))"
    by (simp add: updateOneUpsert_unique)
  from Cons.IH [OF this] show ?case by simp
qed

lemma bulkWrite_docs: "fst (bulkWrite fails ops docs) =
   fst (bulkApply fails 0 ops (docs, \<lparr>matchedCount = 0, modifiedCount = 0, upsertedCount = 0\<rparr>))"
  by (simp add: bulkWrite_def split: prod.splits)

lemma bulkWrite_unique: "uniqueKeys docs \<Longrightarrow> uniqueKeys (fst (bulkWrite fails ops docs))"
  by (simp add: bulkWrite_docs bulkApply_unique)

lemma distinct_count_one:
  "distinct (map f xs) \<Longrightarrow> k \<in> set (map f xs) \<Longrightarrow> length (filter (\<lambda>x. f x = k) xs) = 1"
proof (induction xs)
  case Nil
  then show ?case by simp
next
  case (Cons x xs)
  show ?case
  proof (cases "f x = k")
    case True
    from Cons.prems(1) have "f x \<notin> f ` set xs" by simp
    with True have "\<forall>y \<in> set xs. f y \<noteq> k" by blast
    then have "filter (\<lambda>x. f x = k) xs = []" by (simp add: filter_empty_conv)
    with True show ?thesis by simp
  next
    case False
    with Cons show ?thesis by auto
  qed
qed

lemma updateFirst_set:
  "uniqueKeys docs \<Longrightarrow> d \<in> set (updateFirst opn docs) \<Longrightarrow>
   (if matchesFilter opn d then \<exists>d0 \<in> set docs. matchesFilter opn d0 \<and> d = applySet opn d0
    else d \<in> set docs)"
proof (induction docs)
  case Nil
  then show ?case by simp
next
  case (Cons x xs)
  from Cons.prems(1) have ux: "uniqueKeys xs" and nx: "docKey x \<notin> set (map docKey xs)"
    by (simp_all add: uniqueKeys_def)
  show ?case
  proof (cases "matchesFilter opn x")
    case True
    with nx have none: "\<forall>y \<in> set xs. \<not> matchesFilter opn y"
      by (force simp: matchesFilter_key)
    from True Cons.prems(2) have "d = applySet opn x \<or> d \<in> set xs" by auto
    then show ?thesis
    proof
      assume "d = applySet opn x"
      with True show ?thesis by (auto simp: matchesFilter_key)
    next
      assume "d \<in> set xs"
      with none show ?thesis by auto
    qed
  next
    case False
    with Cons.prems(2) have "d = x \<or> d \<in> set (updateFirst opn xs)" by auto
    then show ?thesis
    proof
      assume "d = x"
      with False show ?thesis by simp
    next
      assume "d \<in> set (updateFirst opn xs)"
      from Cons.IH [OF ux this] show ?thesis by (auto split: if_splits)
    qed
  qed
qed

lemma upsertOne_eq: "upsertOne c t v w docs =
   fst (updateOneUpsert \<lparr>filterChainId = c, filterTimestamp = t, setValue = v, setLastUpdated = w\<rparr>
          (docs, \<lparr>matchedCount = 0, modifiedCount = 0, upsertedCount = 0\<rparr>))"
  by (simp add: upsertOne_def bulkWrite_docs)

lemma upsertOne_keys:
  "map docKey (upsertOne c t v w docs) =
     (if (c, t) \<in> set (map docKey docs) then map docKey docs else map docKey docs @ [(c, t)])"
  by (simp add: upsertOne_eq updateOneUpsert_keys)

lemma upsertOne_unique: "uniqueKeys docs \<Longrightarrow> uniqueKeys (upsertOne c t v w docs)"
  by (simp add: upsertOne_eq updateOneUpsert_unique)

lemma upsertOne_count:
  assumes "uniqueKeys docs"
  shows "length (filter (\<lambda>d. docKey d = (c, t)) (upsertOne c t v w docs)) = 1"
proof -
  have "(c, t) \<in> set (map docKey (upsertOne c t v w docs))"
    by (simp add: upsertOne_keys)
  moreover from assms have "distinct (map docKey (upsertOne c t v w docs))"
    using upsertOne_unique by (simp add: uniqueKeys_def)
  ultimately show ?thesis by (rule distinct_count_one [rotated])
qed

lemma upsertOne_record:
  assumes "uniqueKeys docs" and "d \<in> set (upsertOne c t v w docs)"
  shows "if docKey d = (c, t) then value d = VNum v \<and> lastUpdated d = w else d \<in> set docs"
proof -
  let ?op = "\<lparr>filterChainId = c, filterTimestamp = t, setValue = v, setLastUpdated = w\<rparr>"
  show ?thesis
  proof (cases "find (matchesFilter ?op) docs")
    case None
    then have nk: "(c, t) \<notin> set (map docKey docs)" using find_None_key [of ?op docs] by simp
    from None assms(2) have "d = insertedDoc ?op \<or> d \<in> set docs"
      by (auto simp: upsertOne_eq updateOneUpsert_def)
    then show ?thesis
    proof
      assume "d = insertedDoc ?op"
      then show ?thesis by (simp add: insertedDoc_def docKey_def)
    next
      assume in_docs: "d \<in> set docs"
      with nk have "docKey d \<noteq> (c, t)" unfolding set_map by (metis imageI)
      with in_docs show ?thesis by simp
    qed
  next
    case (Some d0)
    with assms(2) have "d \<in> set (updateFirst ?op docs)"
      by (simp add: upsertOne_eq updateOneUpsert_def)
    from updateFirst_set [OF assms(1) this] show ?thesis
      by (auto simp: matchesFilter_key applySet_def split: if_splits)
  qed
qed


lemma bulkWrite_unique_pair:
  "uniqueKeys docs \<Longrightarrow> bulkWrite fails ops docs = (docs', r) \<Longrightarrow> uniqueKeys docs'"
  using bulkWrite_unique [of docs fails ops] by simp

lemma tryBody_unique: "uniqueKeys docs \<Longrightarrow> uniqueKeys (fst (tryBody cid a docs))"
  by (auto simp: tryBody_def Let_def dest: bulkWrite_unique_pair
      split: fetch_outcome.splits response_data.splits sum.splits prod.splits)

lemma attemptLoop_unique:
  "uniqueKeys docs \<Longrightarrow> attemptLoop cid env n k docs = Inr u \<Longrightarrow> uniqueKeys (docsAfter u)"
proof (induction "Suc n - k" arbitrary: k docs u)
  case 0
  then have "\<not> k \<le> n" by simp
  with 0 show ?case by (auto simp: attemptLoop_exhausted)
next
  case (Suc x)
  then have le: "k \<le> n" and x: "x = Suc n - Suc k" by simp_all
  have ud: "uniqueKeys (fst (tryBody cid (env k) docs))" using Suc.prems(1) by (rule tryBody_unique)
  show ?case
  proof (cases rule: tryBody_cases [of cid "env k" docs])
    case (raise docs' e)
    with ud have ud': "uniqueKeys docs'" by simp
    show ?thesis
    proof (cases "k = n")
      case True
      with raise Suc.prems(2) ud' show ?thesis by (auto simp: attemptLoop_raise_last)
    next
      case False
      with le have lt: "k < n" by simp
      from attemptLoop_returns obtain v where v: "attemptLoop cid env n (Suc k) docs' = Inr v" by blast
      from Suc.hyps(1) [OF x ud' v] have "uniqueKeys (docsAfter v)" .
      with raise lt v Suc.prems(2) show ?thesis by (auto simp: attemptLoop_raise_retry)
    qed
  next
    case (continue docs')
    with ud have ud': "uniqueKeys docs'" by simp
    from attemptLoop_returns obtain v where v: "attemptLoop cid env n (Suc k) docs' = Inr v" by blast
    from Suc.hyps(1) [OF x ud' v] have "uniqueKeys (docsAfter v)" .
    with continue le v Suc.prems(2) show ?thesis by (auto simp: attemptLoop_continue)
  next
    case (applied docs' res)
    with ud le Suc.prems(2) show ?thesis by (auto simp: attemptLoop_applied)
  next
    case (nodata docs')
    with ud le Suc.prems(2) show ?thesis by (auto simp: attemptLoop_nodata)
  qed
qed

text \<open>
  C5. In a collection that has at most one document per \<open>(chainId, timestamp)\<close>: after
  an upsert of \<open>(c, t, v)\<close> exactly one document has the key \<open>(c, t)\<close>; a second upsert
  of the same key, with the same or another value \<open>v'\<close> at the date \<open>w'\<close>, adds no
  document, leaves exactly one document with that key, now with the value \<open>v'\<close> and
  \<^verbatim>\<open>lastUpdated\<close> \<open>w'\<close>, and keeps every other document; and every write (each upsert,
  a \<^verbatim>\<open>bulkWrite\<close> of any operations of which any may be rejected, a whole call of
  \<^verbatim>\<open>updateTpsData\<close>) leaves at most one document per key.
\<close>

theorem upsert_idempotent_unique_key:
  assumes "uniqueKeys docs"
  shows "length (filter (\<lambda>d. docKey d = (c, t)) (upsertOne c t v w docs)) = 1
         \<and> length (filter (\<lambda>d. docKey d = (c, t)) (upsertOne c t v' w' (upsertOne c t v w docs))) = 1
         \<and> length (upsertOne c t v' w' (upsertOne c t v w docs)) = length (upsertOne c t v w docs)
         \<and> (\<forall>d \<in> set (upsertOne c t v' w' (upsertOne c t v w docs)).
               if docKey d = (c, t) then value d = VNum v' \<and> lastUpdated d = w'
               else d \<in> set (upsertOne c t v w docs))
         \<and> uniqueKeys (upsertOne c t v w docs)
         \<and> uniqueKeys (upsertOne c t v' w' (upsertOne c t v w docs))
         \<and> uniqueKeys (fst (bulkWrite fails ops docs))
         \<and> (\<forall>u. updateTpsData cid n env docs = Inr u \<longrightarrow> uniqueKeys (docsAfter u))"
proof -
  let ?s1 = "upsertOne c t v w docs"
  let ?s2 = "upsertOne c t v' w' ?s1"
  from assms have u1: "uniqueKeys ?s1" by (rule upsertOne_unique)
  then have u2: "uniqueKeys ?s2" by (rule upsertOne_unique)
  have "map docKey ?s2 = map docKey ?s1" by (simp add: upsertOne_keys)
  then have "length (map docKey ?s2) = length (map docKey ?s1)" by simp
  then have len: "length ?s2 = length ?s1" by simp
  have rec: "\<forall>d \<in> set ?s2. if docKey d = (c, t) then value d = VNum v' \<and> lastUpdated d = w' else d \<in> set ?s1"
    using upsertOne_record [OF u1] by blast
  have loop: "\<forall>u. updateTpsData cid n env docs = Inr u \<longrightarrow> uniqueKeys (docsAfter u)"
    using attemptLoop_unique [OF assms] by (auto simp: updateTpsData_def)
  from upsertOne_count [OF assms] upsertOne_count [OF u1] len rec u1 u2 bulkWrite_unique [OF assms] loop
  show ?thesis by blast
qed

theorem upsert_idempotent_unique_key_witness:
  "upsertOne ''43114'' (Fin 1700000000) (Fin 5) 1700000000200 [otherDoc]
     = [otherDoc,
        \<lparr>chainId = ''43114'', timestamp = Fin 1700000000, value = VNum (Fin 5), lastUpdated = 1700000000200\<rparr>]
   \<and> upsertOne ''43114'' (Fin 1700000000) (Fin 7) 1700000000900
       (upsertOne ''43114'' (Fin 1700000000) (Fin 5) 1700000000200 [otherDoc])
     = [otherDoc,
        \<lparr>chainId = ''43114'', timestamp = Fin 1700000000, value = VNum (Fin 7), lastUpdated = 1700000000900\<rparr>]
   \<and> length (filter (\<lambda>d. docKey d = (''43114'', Fin 1700000000))
        (upsertOne ''43114'' (Fin 1700000000) (Fin 7) 1700000000900
          (upsertOne ''43114'' (Fin 1700000000) (Fin 5) 1700000000200 [otherDoc]))) = 1
   \<and> uniqueKeys (upsertOne ''43114'' (Fin 1700000000) (Fin 7) 1700000000900
          (upsertOne ''43114'' (Fin 1700000000) (Fin 5) 1700000000200 [otherDoc]))"
proof -
  have inv: "uniqueKeys [otherDoc]" by (simp add: uniqueKeys_def)
  have e1: "upsertOne ''43114'' (Fin 1700000000) (Fin 5) 1700000000200 [otherDoc]
     = [otherDoc,
        \<lparr>chainId = ''43114'', timestamp = Fin 1700000000, value = VNum (Fin 5), lastUpdated = 1700000000200\<rparr>]"
    by (simp add: upsertOne_eq updateOneUpsert_def matchesFilter_def insertedDoc_def otherDoc_def)
  have e2: "upsertOne ''43114'' (Fin 1700000000) (Fin 7) 1700000000900
       [otherDoc,
        \<lparr>chainId = ''43114'', timestamp = Fin 1700000000, value = VNum (Fin 5), lastUpdated = 1700000000200\<rparr>]
     = [otherDoc,
        \<lparr>chainId = ''43114'', timestamp = Fin 1700000000, value = VNum (Fin 7), lastUpdated = 1700000000900\<rparr>]"
    by (simp add: upsertOne_eq updateOneUpsert_def matchesFilter_def applySet_def otherDoc_def)
  from upsert_idempotent_unique_key [OF inv, of "''43114''" "Fin 1700000000" "Fin 5" 1700000000200 "Fin 7" 1700000000900]
  show ?thesis using e1 e2 by simp
qed

section \<open>Properties of the validator\<close>

lemma filterArray_Inr:
  "filterArray p xs = Inr ys \<Longrightarrow> (\<forall>x \<in> set xs. \<exists>b. p x = Inr b) \<and> ys = filter (\<lambda>x. p x = Inr True) xs"
proof (induction xs arbitrary: ys)
  case Nil
  then show ?case by simp
next
  case (Cons x xs)
  from Cons.prems obtain b zs where b: "p x = Inr b" and zs: "filterArray p xs = Inr zs"
    and ys: "ys = (if b then x # zs else zs)"
    by (auto split: sum.splits)
  from Cons.IH [OF zs] b ys show ?case by auto
qed

lemma filterArray_total:
  "\<forall>x \<in> set xs. \<exists>b. p x = Inr b \<Longrightarrow> filterArray p xs = Inr (filter (\<lambda>x. p x = Inr True) xs)"
  by (induction xs) auto

lemma validItem_True:
  "validItem (now - 2592000) now item = Inr True \<longleftrightarrow> inWindow now item"
  by (cases item) (auto simp: validItem_def inWindow_def Let_def split: sum.splits)

lemma validItem_null: "validItem a b item = Inr r \<Longrightarrow> item \<noteq> ItemNull"
  by (cases item) (auto simp: validItem_def)

lemma validTpsData_Inr:
  assumes "validTpsData now results = Inr valid"
  shows "valid = filter (inWindow now) results" and "ItemNull \<notin> set results"
proof -
  from assms have f: "filterArray (validItem (now - 30 * 24 * 60 * 60) now) results = Inr valid"
    by (simp add: validTpsData_def)
  from filterArray_Inr [OF f] show "valid = filter (inWindow now) results"
    by (simp add: validItem_True)
  from filterArray_Inr [OF f] show "ItemNull \<notin> set results"
    using validItem_null by blast
qed

lemma updateOps_Inr:
  "ItemNull \<notin> set xs \<Longrightarrow>
   updateOps cid dates i xs = Inr (map (\<lambda>(j, x). opOf cid (dates j) x) (zip [i..<i + length xs] xs))"
proof (induction xs arbitrary: i)
  case Nil
  then show ?case by simp
next
  case (Cons x xs)
  then obtain tsv vv where x: "x = Item tsv vv" by (cases x) auto
  from Cons.prems have "ItemNull \<notin> set xs" by simp
  from Cons.IH [OF this, of "Suc i"] x show ?case
    by (simp add: opOf_def upt_conv_Cons del: upt_Suc)
qed

lemma updateOneUpsert_has:
  "\<exists>d \<in> set (fst (updateOneUpsert opn (docs, res))).
      matchesFilter opn d \<and> value d = VNum (setValue opn) \<and> lastUpdated d = setLastUpdated opn"
proof (cases "find (matchesFilter opn) docs")
  case None
  then show ?thesis
    by (simp add: updateOneUpsert_def insertedDoc_def matchesFilter_def)
next
  case (Some d0)
  then have "\<exists>d \<in> set docs. matchesFilter opn d" by (metis find_Some_iff nth_mem)
  then have "\<exists>d \<in> set (updateFirst opn docs).
      matchesFilter opn d \<and> value d = VNum (setValue opn) \<and> lastUpdated d = setLastUpdated opn"
    by (induction docs) (auto simp: applySet_def matchesFilter_def)
  with Some show ?thesis by (simp add: updateOneUpsert_def)
qed

lemma updateFirst_keeps:
  "d \<in> set docs \<Longrightarrow> \<not> matchesFilter opn d \<Longrightarrow> d \<in> set (updateFirst opn docs)"
  by (induction docs) auto

lemma updateOneUpsert_keeps:
  "d \<in> set docs \<Longrightarrow> \<not> matchesFilter opn d \<Longrightarrow> d \<in> set (fst (updateOneUpsert opn (docs, res)))"
  by (cases "find (matchesFilter opn) docs") (auto simp: updateOneUpsert_def updateFirst_keeps)

lemma bulkApply_keeps:
  "d \<in> set (fst st) \<Longrightarrow> \<forall>opn \<in> set ops. \<not> matchesFilter opn d \<Longrightarrow>
   d \<in> set (fst (bulkApply fails i ops st))"
proof (induction ops arbitrary: i st)
  case Nil
  then show ?case by simp
next
  case (Cons opn ops)
  obtain docs res where st: "st = (docs, res)" by (cases st)
  with Cons.prems have "d \<in> set (fst (if fails i then st else updateOneUpsert opn st))"
    by (auto simp: updateOneUpsert_keeps)
  from Cons.IH [OF this] Cons.prems(2) show ?case by simp
qed

lemma matchesFilter_same_key:
  "matchesFilter opn d \<Longrightarrow> matchesFilter opn' d \<longleftrightarrow>
     (filterChainId opn', filterTimestamp opn') = (filterChainId opn, filterTimestamp opn)"
  by (auto simp: matchesFilter_def)

lemma bulkApply_stored:
  assumes "\<forall>j < length ops. \<not> fails (i + j)"
    and "distinct (map (\<lambda>opn. (filterChainId opn, filterTimestamp opn)) ops)"
    and "opn \<in> set ops"
  shows "\<exists>d \<in> set (fst (bulkApply fails i ops st)).
           matchesFilter opn d \<and> value d = VNum (setValue opn) \<and> lastUpdated d = setLastUpdated opn"
  using assms
proof (induction ops arbitrary: i st)
  case Nil
  then show ?case by simp
next
  case (Cons o1 ops)
  obtain docs res where st: "st = (docs, res)" by (cases st)
  from Cons.prems(1) have f0: "\<not> fails i" by force
  from Cons.prems(1) have rest: "\<forall>j < length ops. \<not> fails (Suc i + j)" by force
  from Cons.prems(2) have dist: "distinct (map (\<lambda>opn. (filterChainId opn, filterTimestamp opn)) ops)"
    and fresh: "(filterChainId o1, filterTimestamp o1) \<notin> set (map (\<lambda>opn. (filterChainId opn, filterTimestamp opn)) ops)"
    by simp_all
  show ?case
  proof (cases "opn = o1")
    case True
    from updateOneUpsert_has [of o1 docs res] obtain d where
      d: "d \<in> set (fst (updateOneUpsert o1 (docs, res)))" "matchesFilter o1 d"
         "value d = VNum (setValue o1)" "lastUpdated d = setLastUpdated o1" by blast
    have "\<forall>o2 \<in> set ops. \<not> matchesFilter o2 d"
    proof
      fix o2 assume o2: "o2 \<in> set ops"
      with fresh have "(filterChainId o2, filterTimestamp o2) \<noteq> (filterChainId o1, filterTimestamp o1)"
        by (metis (mono_tags, lifting) image_eqI list.set_map)
      with d(2) show "\<not> matchesFilter o2 d" by (simp add: matchesFilter_same_key)
    qed
    from bulkApply_keeps [OF d(1) this, of fails "Suc i"] d True f0 st show ?thesis
      by auto
  next
    case False
    with Cons.prems(3) have "opn \<in> set ops" by simp
    from Cons.IH [OF rest dist this] f0 show ?thesis by simp
  qed
qed

lemma bulkApply_keys_mono:
  "set (map docKey (fst st)) \<subseteq> set (map docKey (fst (bulkApply fails i ops st)))"
proof (induction ops arbitrary: i st)
  case Nil
  then show ?case by simp
next
  case (Cons o1 ops)
  obtain docs res where st: "st = (docs, res)" by (cases st)
  have "set (map docKey docs) \<subseteq> set (map docKey (fst (updateOneUpsert o1 (docs, res))))"
    unfolding updateOneUpsert_keys by auto
  with st have "set (map docKey (fst st)) \<subseteq> set (map docKey (fst (if fails i then st else updateOneUpsert o1 st)))"
    by (cases "fails i") simp_all
  also have "\<dots> \<subseteq> set (map docKey (fst (bulkApply fails (Suc i) ops (if fails i then st else updateOneUpsert o1 st))))"
    by (rule Cons.IH)
  finally show ?case by simp
qed

lemma bulkApply_present:
  assumes "\<forall>j < length ops. \<not> fails (i + j)" and "opn \<in> set ops"
  shows "\<exists>d \<in> set (fst (bulkApply fails i ops st)). matchesFilter opn d"
  using assms
proof (induction ops arbitrary: i st)
  case Nil
  then show ?case by simp
next
  case (Cons o1 ops)
  obtain docs res where st: "st = (docs, res)" by (cases st)
  from Cons.prems(1) have f0: "\<not> fails i" by force
  from Cons.prems(1) have rest: "\<forall>j < length ops. \<not> fails (Suc i + j)" by force
  show ?case
  proof (cases "opn \<in> set ops")
    case True
    from Cons.IH [OF rest True] show ?thesis by simp
  next
    case False
    with Cons.prems(2) have eq: "opn = o1" by simp
    have "(filterChainId o1, filterTimestamp o1) \<in> set (map docKey (fst (updateOneUpsert o1 (docs, res))))"
      by (simp add: updateOneUpsert_keys)
    with bulkApply_keys_mono [of "updateOneUpsert o1 (docs, res)" fails "Suc i" ops]
    have "(filterChainId o1, filterTimestamp o1)
            \<in> set (map docKey (fst (bulkApply fails (Suc i) ops (updateOneUpsert o1 (docs, res)))))"
      by blast
    then obtain d where "d \<in> set (fst (bulkApply fails (Suc i) ops (updateOneUpsert o1 (docs, res))))"
      "docKey d = (filterChainId o1, filterTimestamp o1)" by auto
    with eq f0 st show ?thesis by (auto simp: matchesFilter_key)
  qed
qed


section \<open>Properties of one attempt\<close>

lemma tryBody_results:
  assumes "response a = Resolved (Results results)"
    and "validTpsData (dateNow a div 1000) results = Inr valid"
  shows "valid = [] \<Longrightarrow> tryBody cid a d = (d, Inr ReturnNull)"
    and "valid \<noteq> [] \<Longrightarrow>
           tryBody cid a d =
             (case bulkWrite (writeFails a)
                     (map (\<lambda>(j, x). opOf cid (newDates a j) x) (zip [0..<length valid] valid)) d of
                (d', Inl e) \<Rightarrow> (d', Inl e)
              | (d', Inr res) \<Rightarrow> (d', Inr (ReturnResult res)))"
proof -
  show "valid = [] \<Longrightarrow> tryBody cid a d = (d, Inr ReturnNull)"
    using assms by (simp add: tryBody_def)
  from validTpsData_Inr [OF assms(2)] have "ItemNull \<notin> set valid" by auto
  from updateOps_Inr [OF this, of cid "newDates a" 0]
  show "valid \<noteq> [] \<Longrightarrow>
           tryBody cid a d =
             (case bulkWrite (writeFails a)
                     (map (\<lambda>(j, x). opOf cid (newDates a j) x) (zip [0..<length valid] valid)) d of
                (d', Inl e) \<Rightarrow> (d', Inl e)
              | (d', Inr res) \<Rightarrow> (d', Inr (ReturnResult res)))"
    using assms by (simp add: tryBody_def)
qed

lemma loop_stops_at_return:
  assumes "attemptLoop cid env n k0 docs = Inr u"
    and "Attempt k \<in> set (trace u)"
    and "\<forall>d. \<exists>d' x. tryBody cid (env k) d = (d', Inr x) \<and> x \<noteq> Continue"
  shows "last (trace u) = Attempt k
         \<and> (\<exists>d x. tryBody cid (env k) d = (docsAfter u, Inr x) \<and> outcome u = exitOutcome x)"
  using assms(1,2)
proof (induction "Suc n - k0" arbitrary: k0 docs u)
  case 0
  then have "\<not> k0 \<le> n" by simp
  with 0 show ?case by (auto simp: attemptLoop_exhausted)
next
  case (Suc x)
  then have le: "k0 \<le> n" and x: "x = Suc n - Suc k0" by simp_all
  show ?case
  proof (cases rule: tryBody_cases [of cid "env k0" docs])
    case (raise docs' e)
    with assms(3) have ne: "k \<noteq> k0" by (metis Pair_inject sum.distinct(1))
    show ?thesis
    proof (cases "k0 = n")
      case True
      with raise Suc.prems ne show ?thesis by (auto simp: attemptLoop_raise_last)
    next
      case False
      with le have lt: "k0 < n" by simp
      from attemptLoop_returns obtain v where v: "attemptLoop cid env n (Suc k0) docs' = Inr v" by blast
      with raise lt Suc.prems(1) have u: "u = v\<lparr>trace := [Attempt k0, Sleep (k0 * 2000)] @ trace v\<rparr>"
        by (simp add: attemptLoop_raise_retry)
      with Suc.prems(2) ne have mem: "Attempt k \<in> set (trace v)" by simp
      then have "trace v \<noteq> []" by auto
      with Suc.hyps(1) [OF x v mem] u show ?thesis by auto
    qed
  next
    case (continue docs')
    with assms(3) have ne: "k \<noteq> k0" by (metis Pair_inject sum.inject(2))
    from attemptLoop_returns obtain v where v: "attemptLoop cid env n (Suc k0) docs' = Inr v" by blast
    with continue le Suc.prems(1) have u: "u = v\<lparr>trace := [Attempt k0] @ trace v\<rparr>"
      by (simp add: attemptLoop_continue)
    with Suc.prems(2) ne have mem: "Attempt k \<in> set (trace v)" by simp
    then have "trace v \<noteq> []" by auto
    with Suc.hyps(1) [OF x v mem] u show ?thesis by auto
  next
    case (applied docs' res)
    with le Suc.prems(1) have u: "u = \<lparr>outcome = Applied res, docsAfter = docs', trace = [Attempt k0]\<rparr>"
      by (simp add: attemptLoop_applied)
    with Suc.prems(2) have "k = k0" by simp
    with u applied show ?thesis by (auto intro!: exI [of _ docs] exI [of _ "ReturnResult res"])
  next
    case (nodata docs')
    with le Suc.prems(1) have u: "u = \<lparr>outcome = NoData, docsAfter = docs', trace = [Attempt k0]\<rparr>"
      by (simp add: attemptLoop_nodata)
    with Suc.prems(2) have "k = k0" by simp
    with u nodata show ?thesis by (auto intro!: exI [of _ docs] exI [of _ ReturnNull])
  qed
qed


lemma bulkWrite_ok:
  "\<forall>i < length ops. \<not> fails i \<Longrightarrow> \<exists>res. snd (bulkWrite fails ops d) = Inr res"
  using bulkWrite_raises_indep [of fails ops d] by (cases "snd (bulkWrite fails ops d)") auto

lemma zip_ops_set:
  "x \<in> set valid \<Longrightarrow>
   \<exists>j. opOf cid (dates j) x \<in> set (map (\<lambda>(j, x). opOf cid (dates j) x) (zip [0..<length valid] valid))"
proof -
  assume "x \<in> set valid"
  then obtain i where i: "i < length valid" "valid ! i = x" by (auto simp: in_set_conv_nth)
  then have "(i, x) \<in> set (zip [0..<length valid] valid)"
    by (auto simp: in_set_zip intro!: exI [of _ i])
  then show ?thesis by force
qed

lemma zip_ops_keys:
  "map (\<lambda>opn. (filterChainId opn, filterTimestamp opn))
      (map (\<lambda>(j, x). opOf cid (dates j) x) (zip [0..<length valid] valid))
   = map (\<lambda>x. (cid, Number (item_timestamp x))) valid"
proof -
  have "map (\<lambda>opn. (filterChainId opn, filterTimestamp opn))
          (map (\<lambda>(j, x). opOf cid (dates j) x) (zip js valid))
        = map (\<lambda>x. (cid, Number (item_timestamp x))) valid"
    if "length js = length valid" for js :: "nat list"
    using that by (induction js valid rule: list_induct2) (simp_all add: opOf_def)
  then show ?thesis by simp
qed

lemma matchesFilter_opOf:
  "matchesFilter (opOf cid w y) d \<longleftrightarrow> chainId d = cid \<and> timestamp d = Number (item_timestamp y)"
  by (simp add: matchesFilter_def opOf_def)

lemma setValue_opOf: "setValue (opOf cid w y) = parseFloat (item_value y)"
  by (simp add: opOf_def)

text \<open>
  C7 (as amended). On an attempt that is made, whose request succeeds with a
  \<^verbatim>\<open>results\<close> array on which the validator returns the list \<open>valid\<close> (the points of
  the array inside the window): when \<open>valid\<close> is empty the call ends there as no-data,
  this attempt being the last event of the trace; when \<open>valid\<close> is not empty and the
  store rejects none of the write operations, the call ends there as applied, this
  attempt being the last event of the trace, and afterwards the collection holds for
  every point of \<open>valid\<close> a document of this chain with its timestamp (with its
  parsed value too when the timestamps of \<open>valid\<close> are distinct). When the store
  rejects a write operation the attempt raises: on the last allowed attempt the call
  ends as failed, before that it waits \<open>attempt * 2000\<close> ms and makes the next attempt.
\<close>

theorem fetched_points_applied_or_no_data:
  assumes "updateTpsData cid n env docs = Inr u"
    and "Attempt k \<in> set (trace u)"
    and "response (env k) = Resolved (Results results)"
    and "validTpsData (dateNow (env k) div 1000) results = Inr valid"
  shows "valid = filter (inWindow (dateNow (env k) div 1000)) results
         \<and> (valid = [] \<longrightarrow> outcome u = NoData \<and> last (trace u) = Attempt k)
         \<and> (valid \<noteq> [] \<and> (\<forall>i < length valid. \<not> writeFails (env k) i) \<longrightarrow>
              (\<exists>res. outcome u = Applied res) \<and> last (trace u) = Attempt k
              \<and> (\<forall>x \<in> set valid. \<exists>d \<in> set (docsAfter u).
                    chainId d = cid \<and> timestamp d = Number (item_timestamp x))
              \<and> (distinct (map (\<lambda>x. Number (item_timestamp x)) valid) \<longrightarrow>
                   (\<forall>x \<in> set valid. \<exists>d \<in> set (docsAfter u).
                      chainId d = cid \<and> timestamp d = Number (item_timestamp x)
                      \<and> value d = VNum (parseFloat (item_value x)))))
         \<and> (valid \<noteq> [] \<and> (\<exists>i < length valid. writeFails (env k) i) \<longrightarrow>
              attemptRaises cid (env k) \<and> (k = n \<longrightarrow> outcome u = Failed)
              \<and> (k < n \<longrightarrow> Sleep (k * 2000) \<in> set (trace u) \<and> Attempt (Suc k) \<in> set (trace u)))"
proof -
  let ?a = "env k"
  let ?ops = "map (\<lambda>(j, x). opOf cid (newDates ?a j) x) (zip [0..<length valid] valid)"
  from assms(1) have loop: "attemptLoop cid env n 1 docs = Inr u" by (simp add: updateTpsData_def)
  note tb = tryBody_results [OF assms(3,4), of cid]
  have len: "length ?ops = length valid" by simp
  have p1: "valid = filter (inWindow (dateNow ?a div 1000)) results"
    using validTpsData_Inr(1) [OF assms(4)] .
  have p2: "outcome u = NoData \<and> last (trace u) = Attempt k" if e: "valid = []"
  proof -
    from tb(1) [OF e] have all: "\<forall>d. \<exists>d' x. tryBody cid ?a d = (d', Inr x) \<and> x \<noteq> Continue" by simp
    from loop_stops_at_return [OF loop assms(2) all] tb(1) [OF e] show ?thesis by auto
  qed
  have p3: "(\<exists>res. outcome u = Applied res) \<and> last (trace u) = Attempt k
              \<and> (\<forall>x \<in> set valid. \<exists>d \<in> set (docsAfter u).
                    chainId d = cid \<and> timestamp d = Number (item_timestamp x))
              \<and> (distinct (map (\<lambda>x. Number (item_timestamp x)) valid) \<longrightarrow>
                   (\<forall>x \<in> set valid. \<exists>d \<in> set (docsAfter u).
                      chainId d = cid \<and> timestamp d = Number (item_timestamp x)
                      \<and> value d = VNum (parseFloat (item_value x))))"
    if ne: "valid \<noteq> []" and ok: "\<forall>i < length valid. \<not> writeFails ?a i"
  proof -
    from ok len have ok': "\<forall>i < length ?ops. \<not> writeFails ?a i" by simp
    have step: "\<exists>res. tryBody cid ?a d = (fst (bulkWrite (writeFails ?a) ?ops d), Inr (ReturnResult res))" for d
      using bulkWrite_ok [OF ok', of d] tb(2) [OF ne, of d]
      by (cases "bulkWrite (writeFails ?a) ?ops d") auto
    then have all: "\<forall>d. \<exists>d' x. tryBody cid ?a d = (d', Inr x) \<and> x \<noteq> Continue" by (metis body_exit.distinct(1))
    from loop_stops_at_return [OF loop assms(2) all] obtain d x where
      last: "last (trace u) = Attempt k" and dx: "tryBody cid ?a d = (docsAfter u, Inr x)"
      and ox: "outcome u = exitOutcome x" by blast
    from step [of d] dx obtain res where x: "x = ReturnResult res"
      and da: "docsAfter u = fst (bulkWrite (writeFails ?a) ?ops d)" by auto
    from ok' have ok0: "\<forall>j < length ?ops. \<not> writeFails ?a (0 + j)" by simp
    have keys: "\<exists>d' \<in> set (docsAfter u). chainId d' = cid \<and> timestamp d' = Number (item_timestamp y)"
      if y: "y \<in> set valid" for y
    proof -
      from zip_ops_set [OF y] obtain j where "opOf cid (newDates ?a j) y \<in> set ?ops" by blast
      from bulkApply_present [OF ok0 this] show ?thesis
        unfolding da bulkWrite_docs by (simp add: matchesFilter_opOf)
    qed
    have vals: "\<exists>d' \<in> set (docsAfter u). chainId d' = cid \<and> timestamp d' = Number (item_timestamp y)
                  \<and> value d' = VNum (parseFloat (item_value y))"
      if y: "y \<in> set valid" and dist: "distinct (map (\<lambda>x. Number (item_timestamp x)) valid)" for y
    proof -
      from dist have "distinct (map (\<lambda>x. (cid, Number (item_timestamp x))) valid)"
        by (simp add: distinct_map inj_on_def)
      then have dk: "distinct (map (\<lambda>opn. (filterChainId opn, filterTimestamp opn)) ?ops)"
        by (simp only: zip_ops_keys)
      from zip_ops_set [OF y] obtain j where "opOf cid (newDates ?a j) y \<in> set ?ops" by blast
      from bulkApply_stored [OF ok0 dk this] show ?thesis
        unfolding da bulkWrite_docs by (auto simp: matchesFilter_opOf setValue_opOf)
    qed
    from last ox x keys vals show ?thesis by auto
  qed
  have p4: "attemptRaises cid ?a \<and> (k = n \<longrightarrow> outcome u = Failed)
              \<and> (k < n \<longrightarrow> Sleep (k * 2000) \<in> set (trace u) \<and> Attempt (Suc k) \<in> set (trace u))"
    if ne: "valid \<noteq> []" and bad: "\<exists>i < length valid. writeFails ?a i"
  proof -
    from bad len have "\<exists>i < length ?ops. writeFails ?a i" by simp
    then have "isl (snd (bulkWrite (writeFails ?a) ?ops []))" by (simp add: bulkWrite_raises_indep)
    with tb(2) [OF ne, of "[]"] have r: "attemptRaises cid ?a"
      by (auto simp: attemptRaises_def split: prod.splits sum.splits)
    from loop_trace_shape [OF loop] obtain m where
      m: "m \<le> n" "trace u = concat (map (segment cid env n) [1..<Suc m])"
         "m = n \<and> 1 \<le> n \<and> attemptRaises cid (env n) \<longrightarrow> outcome u = Failed"
         "m < n \<longrightarrow> \<not> attemptRaises cid (env m)" by auto
    from assms(2) have k: "1 \<le> k" "k \<le> m" using trace_members(1) [OF m(2)] by auto
    have a: "outcome u = Failed" if "k = n" using that k m r by auto
    have b: "Sleep (k * 2000) \<in> set (trace u) \<and> Attempt (Suc k) \<in> set (trace u)" if "k < n"
    proof -
      from that r m(4) k have "k \<noteq> m" by auto
      with k have "Suc k \<le> m" by simp
      then have "Attempt (Suc k) \<in> set (trace u)" using trace_members(1) [OF m(2)] by auto
      moreover have "Sleep (k * 2000) \<in> set (trace u)"
        using trace_members(2) [OF m(2)] k r that by auto
      ultimately show ?thesis by simp
    qed
    from r a b show ?thesis by simp
  qed
  from p1 p2 p3 p4 show ?thesis by blast
qed


section \<open>Concrete runs\<close>

subsection \<open>The doubles of the runs\<close>

lemma roundDouble_7_2: "roundDouble (7 / 2) = Fin (7 / 2)"
  using roundDouble_dyadic [of 7 1] by simp

lemma roundDouble_micro: "roundDouble 1700000000000000000 = Fin 1700000000000000000"
  by (rule roundDouble_exact [of 12969970703125 17]) (simp_all add: pow2_def)

lemma roundDouble_5_3: "roundDouble (5 / 3) = Fin (7505999378950827 / 4503599627370496)"
  using roundDouble_nearest [of "- 52" "5 / 3" 7505999378950827] by (simp add: pow2_def)

lemmas parse_defs =
  stringToNumber_def trimWhite_def scanNonDecimal_def parseFloatString_def scanSigned_def
  scanUnsigned_def scanExponent_def isWhite_def isDigit_def digitsVal_def digitVal_def
  scale10_def baseDigit_def

lemmas validator_defs =
  validTpsData_def validItem_def isNaN_def num_ge_def isoOfSeconds_def toISOString_def Let_def

lemma goodPoint_valid:
  "validTpsData 1700000000 [Item (JNum 1699999990) (JStr ''3.5'')] = Inr [Item (JNum 1699999990) (JStr ''3.5'')]"
  by (simp add: validator_defs parse_defs roundDouble_numeral roundDouble_7_2)

lemma microsecondPoint_raises:
  "validTpsData 1700000000 [Item (JNum 1700000000000000) (JNum 1)] = Inl RangeError"
  by (simp add: validator_defs roundDouble_numeral roundDouble_micro)

lemma run_good:
  "updateTpsData ''43114'' 3 goodProvider [] =
     Inr \<lparr>outcome = Applied \<lparr>matchedCount = 0, modifiedCount = 0, upsertedCount = 1\<rparr>,
          docsAfter = [\<lparr>chainId = ''43114'', timestamp = Fin 1699999990,
                        value = VNum (Fin (7 / 2)), lastUpdated = 1700000000200\<rparr>],
          trace = [Attempt 1]\<rparr>"
  by (simp add: updateTpsData_def attemptLoop.simps tryBody_def goodProvider_def goodPoint_valid
      goodPoint_def parse_defs bulkWrite_def updateOneUpsert_def insertedDoc_def
      roundDouble_numeral roundDouble_7_2)

lemma run_rejects:
  "updateTpsData ''43114'' 2 storeRejects [] =
     Inr \<lparr>outcome = Failed, docsAfter = [], trace = [Attempt 1, Sleep 2000, Attempt 2]\<rparr>"
  by (simp add: updateTpsData_def attemptLoop.simps tryBody_def storeRejects_def goodPoint_valid
      goodPoint_def bulkWrite_def)

lemma run_micro:
  "updateTpsData ''43114'' 3 microsecondProvider [] =
     Inr \<lparr>outcome = Failed, docsAfter = [],
          trace = [Attempt 1, Sleep 2000, Attempt 2, Sleep 4000, Attempt 3]\<rparr>"
  by (simp add: updateTpsData_def attemptLoop.simps tryBody_def microsecondProvider_def
      microsecondPoint_def microsecondPoint_raises)

lemma run_down:
  "updateTpsData ''43114'' 3 providerDown docs =
     Inr \<lparr>outcome = Failed, docsAfter = docs,
          trace = [Attempt 1, Sleep 2000, Attempt 2, Sleep 4000, Attempt 3]\<rparr>"
  by (simp add: updateTpsData_def attemptLoop.simps tryBody_def providerDown_def)

theorem fetched_points_applied_or_no_data_witness:
  "updateTpsData ''43114'' 3 goodProvider [] =
     Inr \<lparr>outcome = Applied \<lparr>matchedCount = 0, modifiedCount = 0, upsertedCount = 1\<rparr>,
          docsAfter = [\<lparr>chainId = ''43114'', timestamp = Fin 1699999990,
                        value = VNum (Fin (7 / 2)), lastUpdated = 1700000000200\<rparr>],
          trace = [Attempt 1]\<rparr>
   \<and> [goodPoint] = filter (inWindow (dateNow (goodProvider 1) div 1000)) [goodPoint]
   \<and> Number (item_timestamp goodPoint) = Fin 1699999990
   \<and> parseFloat (item_value goodPoint) = Fin (7 / 2)"
proof -
  have mem: "Attempt 1 \<in> set (trace \<lparr>outcome = Applied \<lparr>matchedCount = 0, modifiedCount = 0, upsertedCount = 1\<rparr>,
          docsAfter = [\<lparr>chainId = ''43114'', timestamp = Fin 1699999990,
                        value = VNum (Fin (7 / 2)), lastUpdated = 1700000000200\<rparr>],
          trace = [Attempt 1]\<rparr>)" by simp
  have resp: "response (goodProvider 1) = Resolved (Results [goodPoint])"
    by (simp add: goodProvider_def)
  have valid: "validTpsData (dateNow (goodProvider 1) div 1000) [goodPoint] = Inr [goodPoint]"
    by (simp add: goodProvider_def goodPoint_def goodPoint_valid)
  have a: "[goodPoint] = filter (inWindow (dateNow (goodProvider 1) div 1000)) [goodPoint]"
    by (rule fetched_points_applied_or_no_data [OF run_good mem resp valid, THEN conjunct1])
  have b: "Number (item_timestamp goodPoint) = Fin 1699999990"
    by (simp add: goodPoint_def roundDouble_numeral)
  have c: "parseFloat (item_value goodPoint) = Fin (7 / 2)"
    by (simp add: goodPoint_def parse_defs roundDouble_7_2)
  show ?thesis by (intro conjI) (rule run_good, rule a, rule b, rule c)
qed

text \<open>
  C7, as stated, fails when the store rejects the write: on attempt 1 the request
  succeeds with a \<^verbatim>\<open>results\<close> array, the validated list is the one point of the
  array, and the call does not end there as applied: it waits 2000 ms, makes attempt 2
  and ends as failed.
\<close>

theorem store_rejection_is_retried_counterexample:
  "response (storeRejects 1) = Resolved (Results [goodPoint])
   \<and> validTpsData (dateNow (storeRejects 1) div 1000) [goodPoint] = Inr [goodPoint]
   \<and> updateTpsData ''43114'' 2 storeRejects [] =
       Inr \<lparr>outcome = Failed, docsAfter = [], trace = [Attempt 1, Sleep 2000, Attempt 2]\<rparr>"
  by (simp add: run_rejects storeRejects_def goodPoint_def goodPoint_valid)

subsection \<open>The validator\<close>

lemma filter_subseq: "subseq (filter P xs) xs"
  by (induction xs) auto

lemma validTpsData_sublist:
  "validTpsData now results = Inr valid \<Longrightarrow>
   subseq valid results \<and> valid = filter (inWindow now) results"
  using validTpsData_Inr(1) [of now results valid] filter_subseq [of "inWindow now" results] by simp

lemma validTpsData_scenario:
  assumes "0 \<le> now" and "now \<le> 8640000000000"
  shows "validTpsData now
           [Item (JNum (of_int now - 10)) (JStr ''3.5''),
            Item (JNum (of_int now - 40 * 86400)) (JNum 2),
            Item (JStr ''bad'') (JNum 1)]
         = Inr [Item (JNum (of_int now - 10)) (JStr ''3.5'')]"
    and "updateOps cid dates 0 [Item (JNum (of_int now - 10)) (JStr ''3.5'')]
         = Inr [\<lparr>filterChainId = cid, filterTimestamp = Fin (of_int now - 10),
                  setValue = Fin (7 / 2), setLastUpdated = dates 0\<rparr>]"
proof -
  have r1: "roundDouble (of_int now - 10) = Fin (of_int now - 10)"
    using roundDouble_int [of "now - 10"] assms by simp
  have r2: "roundDouble (of_int now - 3456000) = Fin (of_int now - 3456000)"
    using roundDouble_int [of "now - 3456000"] assms by simp
  have r3: "roundDouble (of_int now * 1000 - 3456000000) = Fin (of_int now * 1000 - 3456000000)"
    using roundDouble_int [of "now * 1000 - 3456000000"] assms by simp
  have r4: "roundDouble 2 = Fin 2" by (simp add: roundDouble_numeral)
  from assms have "\<bar>(rat_of_int now - 3456000) * 1000\<bar> \<le> 8640000000000000"
    by (simp add: abs_le_iff) 
  with assms show "validTpsData now
           [Item (JNum (of_int now - 10)) (JStr ''3.5''),
            Item (JNum (of_int now - 40 * 86400)) (JNum 2),
            Item (JStr ''bad'') (JNum 1)]
         = Inr [Item (JNum (of_int now - 10)) (JStr ''3.5'')]"
    by (simp add: validator_defs parse_defs r1 r2 r3 r4 roundDouble_7_2)
  show "updateOps cid dates 0 [Item (JNum (of_int now - 10)) (JStr ''3.5'')]
         = Inr [\<lparr>filterChainId = cid, filterTimestamp = Fin (of_int now - 10),
                  setValue = Fin (7 / 2), setLastUpdated = dates 0\<rparr>]"
    by (simp add: parse_defs r1 roundDouble_7_2)
qed

text \<open>
  C1 fails on the code: the validator does not return a sublist for every list of raw
  points. For a point whose timestamp is a number outside the window and outside the
  range of \<^verbatim>\<open>Date\<close> (here the instant \<open>1700000000\<close> given in microseconds), the
  argument of the warning about the timestamp out of range,
  \<^verbatim>\<open>new Date(timestamp * 1000).toISOString()\<close>, raises a RangeError inside the filter
  callback. In \<^verbatim>\<open>updateTpsData\<close> the attempt then counts as raised, so the call waits
  and tries again, and ends as failed instead of no-data.
\<close>

theorem validator_raises_on_microsecond_timestamp:
  "validTpsData 1700000000 [microsecondPoint] = Inl RangeError
   \<and> updateTpsData ''43114'' 3 microsecondProvider [] =
       Inr \<lparr>outcome = Failed, docsAfter = [],
            trace = [Attempt 1, Sleep 2000, Attempt 2, Sleep 4000, Attempt 3]\<rparr>"
  by (simp add: run_micro microsecondPoint_def microsecondPoint_raises)

subsection \<open>The refresh route\<close>

lemma getLatestTps_no_read_failure:
  "\<exists>docs' latest. getLatestTps cid env False False docs = (docs', Inr latest)"
proof (cases "findOneLatest (\<lambda>d. chainId d = cid) docs")
  case None
  from attemptLoop_returns obtain u where "updateTpsData cid 3 env docs = Inr u"
    unfolding updateTpsData_def by blast
  with None show ?thesis by (simp add: getLatestTps_def)
next
  case (Some d)
  then show ?thesis by (simp add: getLatestTps_def)
qed

lemma route_always_success:
  assumes "\<not> findFails1 renv" and "\<not> findFails2 renv"
  shows "\<exists>docs' latest. updateChainTpsRoute cid renv docs = (docs', Responded 200 (UpdateOk cid latest))"
proof -
  from attemptLoop_returns obtain u where u: "updateTpsData cid 3 (firstUpdate renv) docs = Inr u"
    unfolding updateTpsData_def by blast
  from getLatestTps_no_read_failure [of cid "refill renv" "docsAfter u"] obtain docs' latest where
    "getLatestTps cid (refill renv) False False (docsAfter u) = (docs', Inr latest)" by blast
  with u assms show ?thesis by (simp add: updateChainTpsRoute_def)
qed

text \<open>
  C6 fails on the code. With the provider unreachable on every attempt, the update
  ends as failed; the handler does not look at what \<^verbatim>\<open>updateTpsData\<close> returned and
  answers with status 200 and \<^verbatim>\<open>success: true\<close>: with the latest stored point when
  the chain has one (here a point a day and a half old), with \<^verbatim>\<open>latestTps: null\<close>
  when it has none (after three more failed attempts made by \<^verbatim>\<open>getLatestTps\<close>).
\<close>

theorem refresh_route_reports_success_after_failed_update:
  "updateTpsData ''43114'' 3 (firstUpdate allDown) [staleDoc] =
     Inr \<lparr>outcome = Failed, docsAfter = [staleDoc],
          trace = [Attempt 1, Sleep 2000, Attempt 2, Sleep 4000, Attempt 3]\<rparr>
   \<and> updateChainTpsRoute ''43114'' allDown [staleDoc] =
       ([staleDoc],
        Responded 200
          (UpdateOk ''43114'' (Some \<lparr>pointTimestamp = Fin 1699870400, pointValue = VNum (Fin 4)\<rparr>)))
   \<and> updateChainTpsRoute ''43114'' allDown [] = ([], Responded 200 (UpdateOk ''43114'' None))
   \<and> success (UpdateOk ''43114'' None)"
  by (simp add: updateChainTpsRoute_def getLatestTps_def allDown_def run_down findOneLatest_def
      staleDoc_def selectPoint_def)

section \<open>Properties of the network snapshot\<close>

lemma andThen_Inr [simp]: "andThen (Inr x) f = f x"
  by (simp add: andThen_def)

lemma andThen_skip: "\<exists>x. m = Inr x \<Longrightarrow> andThen m (\<lambda>_. k) = k"
  by (auto simp: andThen_def)

lemma mapArray_total:
  "\<forall>x \<in> set xs. \<exists>y. f x = Inr y \<Longrightarrow> \<exists>ys. mapArray f xs = Inr ys"
proof (induction xs)
  case Nil
  then show ?case by simp
next
  case (Cons x xs)
  then obtain y ys where "f x = Inr y" "mapArray f xs = Inr ys" by auto
  then show ?case by simp
qed

lemma times1000_printable:
  assumes "printable t"
  shows "\<exists>y. times1000 t = Fin y \<and> \<bar>y\<bar> \<le> 8640000000000000"
proof -
  from assms obtain r where t: "t = Fin r" and r: "\<bar>r\<bar> \<le> 8640000000000"
    by (cases t) (simp_all add: printable_def)
  from r have "\<bar>r * 1000\<bar> \<le> of_int 8640000000000000" by (simp add: abs_mult)
  from roundDouble_bounded [OF this] t show ?thesis by (simp add: times1000_def)
qed

lemma printable_millis: "printable t \<Longrightarrow> \<exists>s. isoOfMillis (times1000 t) = Inr s"
  using times1000_printable [of t] by (auto simp: isoOfMillis_def toISOString_def)

lemma printable_iso: "printable t \<Longrightarrow> \<exists>s. isoOfSeconds t = Inr s"
  using printable_millis [of t] by (simp add: isoOfMillis_def isoOfSeconds_def times1000_def)

lemma num_le_Fin [simp]: "num_le (Fin a) (Fin b) \<longleftrightarrow> a \<le> b"
  by simp

lemma num_max2_Fin [simp]: "num_max2 (Fin a) (Fin b) = Fin (max a b)"
  by (simp add: num_max2_def max_def)

lemma num_min2_Fin [simp]: "num_min2 (Fin a) (Fin b) = Fin (min a b)"
  by (simp add: num_min2_def min_def)

lemma foldl_max_Fin: "foldl num_max2 (Fin a) (map Fin rs) = Fin (fold max rs a)"
  by (induction rs arbitrary: a) (simp_all add: max.commute)

lemma foldl_min_Fin: "foldl num_min2 (Fin a) (map Fin rs) = Fin (fold min rs a)"
  by (induction rs arbitrary: a) (simp_all add: min.commute)

lemma mathMax_Fin: "rs \<noteq> [] \<Longrightarrow> mathMax (map Fin rs) = Fin (Max (set rs))"
proof -
  assume ne: "rs \<noteq> []"
  then obtain r rs' where rs: "rs = r # rs'" by (cases rs) auto
  have "mathMax (map Fin rs) = foldl num_max2 (Fin r) (map Fin rs')"
    by (simp add: rs mathMax_def num_max2_def)
  also have "\<dots> = Fin (fold max rs' r)" by (rule foldl_max_Fin)
  also have "fold max rs' r = Max (set rs)" using Max.set_eq_fold [of r rs'] by (simp add: rs)
  finally show ?thesis .
qed

lemma mathMin_Fin: "rs \<noteq> [] \<Longrightarrow> mathMin (map Fin rs) = Fin (Min (set rs))"
proof -
  assume ne: "rs \<noteq> []"
  then obtain r rs' where rs: "rs = r # rs'" by (cases rs) auto
  have "mathMin (map Fin rs) = foldl num_min2 (Fin r) (map Fin rs')"
    by (simp add: rs mathMin_def num_min2_def)
  also have "\<dots> = Fin (fold min rs' r)" by (rule foldl_min_Fin)
  also have "fold min rs' r = Min (set rs)" using Min.set_eq_fold [of r rs'] by (simp add: rs)
  finally show ?thesis .
qed

lemma printable_Fin: "printable t \<Longrightarrow> t = Fin (ratOf t) \<and> \<bar>ratOf t\<bar> \<le> 8640000000000"
  by (cases t) (auto simp: printable_def)

lemma finite_list: "\<forall>t \<in> set ts. \<exists>r. t = Fin r \<Longrightarrow> ts = map Fin (map ratOf ts)"
  by (induction ts) auto

lemma mathMax_finite:
  assumes "ts \<noteq> []" and "\<forall>t \<in> set ts. \<exists>r. t = Fin r"
  shows "mathMax ts \<in> set ts" and "\<forall>t \<in> set ts. num_le t (mathMax ts)"
proof -
  let ?rs = "map ratOf ts"
  from assms(2) have ts: "ts = map Fin ?rs" by (rule finite_list)
  from assms(1) have ne: "?rs \<noteq> []" by simp
  have mx: "mathMax ts = Fin (Max (set ?rs))" using mathMax_Fin [OF ne] ts by simp
  have "Max (set ?rs) \<in> set ?rs" using ne by (intro Max_in) auto
  then have "Fin (Max (set ?rs)) \<in> Fin ` set ?rs" by (rule imageI)
  then have "Fin (Max (set ?rs)) \<in> set (map Fin ?rs)" by (simp only: set_map)
  with mx ts show in_set: "mathMax ts \<in> set ts" by simp
  show "\<forall>t \<in> set ts. num_le t (mathMax ts)"
  proof
    fix t assume t: "t \<in> set ts"
    with assms(2) have tf: "t = Fin (ratOf t)" by auto
    from t have "ratOf t \<in> set ?rs" by simp
    then have "ratOf t \<le> Max (set ?rs)" by (intro Max_ge) auto
    with tf mx show "num_le t (mathMax ts)" by (metis num_le_Fin)
  qed
qed

lemma mathMin_finite:
  assumes "ts \<noteq> []" and "\<forall>t \<in> set ts. \<exists>r. t = Fin r"
  shows "mathMin ts \<in> set ts"
proof -
  let ?rs = "map ratOf ts"
  from assms(2) have ts: "ts = map Fin ?rs" by (rule finite_list)
  from assms(1) have ne: "?rs \<noteq> []" by simp
  have mn: "mathMin ts = Fin (Min (set ?rs))" using mathMin_Fin [OF ne] ts by simp
  have "Min (set ?rs) \<in> set ?rs" using ne by (intro Min_in) auto
  then have "Fin (Min (set ?rs)) \<in> Fin ` set ?rs" by (rule imageI)
  then have "Fin (Min (set ?rs)) \<in> set (map Fin ?rs)" by (simp only: set_map)
  with mn ts show in_set: "mathMin ts \<in> set ts" by simp
qed

lemma latestOf_None: "latestOf xs = None \<longleftrightarrow> xs = []"
  by (induction xs) (auto split: option.splits)

lemma latestOf_Some:
  "xs \<noteq> [] \<Longrightarrow> \<exists>d. latestOf xs = Some d \<and> d \<in> set xs
      \<and> (\<forall>e \<in> set xs. sortRank (timestamp e) \<le> sortRank (timestamp d))"
proof (induction xs)
  case Nil
  then show ?case by simp
next
  case (Cons x xs)
  show ?case
  proof (cases "xs = []")
    case True
    then show ?thesis by simp
  next
    case False
    from Cons.IH [OF False] obtain d where d: "latestOf xs = Some d" "d \<in> set xs"
      "\<forall>e \<in> set xs. sortRank (timestamp e) \<le> sortRank (timestamp d)" by blast
    show ?thesis
    proof (cases "sortRank (timestamp d) \<le> sortRank (timestamp x)")
      case True
      with d show ?thesis by (auto intro: order_trans)
    next
      case False
      with d show ?thesis by auto
    qed
  qed
qed

lemma map_the_filter:
  "map the (filter (\<lambda>r. r \<noteq> None) (map f cs)) = map (\<lambda>c. the (f c)) (filter (\<lambda>c. f c \<noteq> None) cs)"
  by (induction cs) auto


lemma recent_findOne:
  "oda = now - 86400 \<Longrightarrow>
   findOneLatest (\<lambda>d. chainId d = c \<and> num_ge (timestamp d) (Fin (of_int oda))
                      \<and> num_le (timestamp d) (Fin (of_int now))) docs
   = latestOf (recentOf docs now c)"
  by (simp add: findOneLatest_def recentOf_def inLastDay_def)

lemma latestTpsResults_eq:
  "oda = now - 86400 \<Longrightarrow>
   latestTpsResults chainIds docs oda now = map (\<lambda>c. latestOf (recentOf docs now c)) chainIds"
  unfolding latestTpsResults_def by (simp only: recent_findOne)

lemma latestRecent_props:
  assumes "c \<in> set (validChains chainIds docs now)"
  shows "latestOf (recentOf docs now c) = Some (latestRecent docs now c)"
    and "latestRecent docs now c \<in> set docs"
    and "chainId (latestRecent docs now c) = c"
    and "inLastDay now (timestamp (latestRecent docs now c))"
    and "\<forall>e \<in> set docs. chainId e = c \<and> inLastDay now (timestamp e)
           \<longrightarrow> sortRank (timestamp e) \<le> sortRank (timestamp (latestRecent docs now c))"
proof -
  from assms have ne: "recentOf docs now c \<noteq> []" by (simp add: validChains_def)
  from latestOf_Some [OF ne] obtain d where d: "latestOf (recentOf docs now c) = Some d"
    "d \<in> set (recentOf docs now c)"
    "\<forall>e \<in> set (recentOf docs now c). sortRank (timestamp e) \<le> sortRank (timestamp d)" by blast
  then have eq: "latestRecent docs now c = d" by (simp add: latestRecent_def)
  from d(1) eq show "latestOf (recentOf docs now c) = Some (latestRecent docs now c)" by simp
  from d(2) eq show "latestRecent docs now c \<in> set docs" by (simp add: recentOf_def)
  from d(2) eq show "chainId (latestRecent docs now c) = c" by (simp add: recentOf_def)
  from d(2) eq show "inLastDay now (timestamp (latestRecent docs now c))" by (simp add: recentOf_def)
  from d(3) eq show "\<forall>e \<in> set docs. chainId e = c \<and> inLastDay now (timestamp e)
           \<longrightarrow> sortRank (timestamp e) \<le> sortRank (timestamp (latestRecent docs now c))"
    by (simp add: recentOf_def)
qed

lemma validResults_eq:
  assumes "oda = now - 86400"
  shows "map the (filter (\<lambda>r. r \<noteq> None) (latestTpsResults chainIds docs oda now))
         = map (latestRecent docs now) (validChains chainIds docs now)"
proof -
  have "map the (filter (\<lambda>r. r \<noteq> None) (map (\<lambda>c. latestOf (recentOf docs now c)) chainIds))
        = map (\<lambda>c. the (latestOf (recentOf docs now c)))
            (filter (\<lambda>c. latestOf (recentOf docs now c) \<noteq> None) chainIds)"
    by (rule map_the_filter)
  also have "\<dots> = map (latestRecent docs now) (validChains chainIds docs now)"
    by (simp add: validChains_def latestRecent_def latestOf_None del: not_None_eq)
  finally show ?thesis by (simp only: latestTpsResults_eq [OF assms])
qed

lemma validResult_kept:
  assumes "oda = now - 86400"
  shows "filterArray (validResult oda now) (latestTpsResults chainIds docs oda now)
         = Inr (filter (\<lambda>r. r \<noteq> None) (latestTpsResults chainIds docs oda now))"
proof -
  let ?rs = "latestTpsResults chainIds docs oda now"
  have v: "validResult oda now r = Inr (r \<noteq> None)" if "r \<in> set ?rs" for r
  proof (cases r)
    case None
    then show ?thesis by (simp add: validResult_def)
  next
    case (Some d)
    from that obtain c where "r = latestOf (recentOf docs now c)"
      unfolding latestTpsResults_eq [OF assms] by auto
    with Some have "latestOf (recentOf docs now c) = Some d" by simp
    moreover then have "recentOf docs now c \<noteq> []" using latestOf_None by fastforce
    ultimately have "d \<in> set (recentOf docs now c)" using latestOf_Some by fastforce
    then have "inLastDay now (timestamp d)" by (simp add: recentOf_def)
    with Some assms show ?thesis by (simp add: validResult_def inLastDay_def)
  qed
  then have "\<forall>r \<in> set ?rs. \<exists>b. validResult oda now r = Inr b" by blast
  from filterArray_total [OF this] have
    "filterArray (validResult oda now) ?rs
       = Inr (filter (\<lambda>r. validResult oda now r = Inr True) ?rs)" .
  also have "filter (\<lambda>r. validResult oda now r = Inr True) ?rs = filter (\<lambda>r. r \<noteq> None) ?rs"
  proof (rule filter_cong [OF refl])
    fix r assume "r \<in> set ?rs"
    from v [OF this] show "(validResult oda now r = Inr True) = (r \<noteq> None)" by (simp only: sum.inject) simp
  qed
  finally show ?thesis .
qed


lemma printable_finite: "printable t \<Longrightarrow> \<exists>r. t = Fin r"
  by (cases t) (auto simp: printable_def)

lemma logTimeBoundaries_ok:
  assumes "0 \<le> nowMs" and "nowMs \<le> 8640000000000000"
  shows "\<exists>x. logTimeBoundaries (nowMs div 1000) (nowMs div 1000 - 86400) = Inr x"
    and "printable (Fin (of_int (nowMs div 1000)))"
proof -
  from assms have n: "0 \<le> nowMs div 1000" "nowMs div 1000 \<le> 8640000000000" by auto
  then show p: "printable (Fin (of_int (nowMs div 1000)))"
    by (simp add: printable_def abs_le_iff)
  from n have "\<bar>rat_of_int (nowMs div 1000 - 86400)\<bar> \<le> 8640000000000"
    by (simp add: abs_le_iff)
  then have q: "printable (Fin (of_int (nowMs div 1000 - 86400)))"
    by (simp add: printable_def)
  from p q have "\<forall>t \<in> set [Fin (of_int (nowMs div 1000)), Fin (of_int (nowMs div 1000 - 86400))].
                    \<exists>s. isoOfSeconds t = Inr s"
    using printable_iso by auto
  from mapArray_total [OF this] show "\<exists>x. logTimeBoundaries (nowMs div 1000) (nowMs div 1000 - 86400) = Inr x"
    by (simp add: logTimeBoundaries_def)
qed

lemma logAllRecords_ok:
  assumes "printableStore docs"
  shows "\<exists>x. logAllRecords oda docs = Inr x"
proof -
  let ?all = "filter (\<lambda>r. num_ge (timestamp r) (Fin (of_int oda))) docs"
  let ?ms = "map (\<lambda>r. times1000 (timestamp r)) ?all"
  show ?thesis
  proof (cases "?all = []")
    case True
    then show ?thesis by (simp add: logAllRecords_def Let_def)
  next
    case False
    have el: "\<exists>s. isoOfMillis x = Inr s" "\<exists>r. x = Fin r" if "x \<in> set ?ms" for x
    proof -
      from that obtain d where d: "d \<in> set docs" "x = times1000 (timestamp d)" by auto
      with assms have p: "printable (timestamp d)" by (simp add: printableStore_def)
      from printable_millis [OF p] d show "\<exists>s. isoOfMillis x = Inr s" by simp
      from times1000_printable [OF p] d show "\<exists>r. x = Fin r" by auto
    qed
    from False have ne: "?ms \<noteq> []" by simp
    from el(2) have fin: "\<forall>t \<in> set ?ms. \<exists>r. t = Fin r" by blast
    from mathMin_finite [OF ne fin] mathMax_finite(1) [OF ne fin] el(1)
    have "\<forall>t \<in> set [mathMin ?ms, mathMax ?ms]. \<exists>s. isoOfMillis t = Inr s" by simp
    from mapArray_total [OF this] False show ?thesis
      by (simp add: logAllRecords_def Let_def)
  qed
qed

lemma not_future: "num_le t (Fin b) \<Longrightarrow> \<not> num_gt t (Fin b)"
  by (cases t) (auto simp: num_gt_def)

lemma logValidResults_ok:
  assumes "\<forall>r \<in> set vr. printable (timestamp r) \<and> num_le (timestamp r) (Fin (of_int now))"
    and "printable (Fin (of_int now))"
  shows "\<exists>x. logValidResults now vr = Inr x"
proof -
  let ?ts = "map timestamp vr"
  from assms(1) have "\<forall>r \<in> set vr. \<exists>s. isoOfSeconds (timestamp r) = Inr s"
    using printable_iso by blast
  from mapArray_total [OF this] obtain x1 where
    s1: "mapArray (\<lambda>r. isoOfSeconds (timestamp r)) vr = Inr x1" by blast
  from assms(1) have s2: "filter (\<lambda>t. num_gt t (Fin (of_int now))) ?ts = []"
    by (auto simp: filter_empty_conv not_future)
  have s3: "\<exists>x. (if length vr \<noteq> 0 then mapArray isoOfSeconds [mathMin ?ts, mathMax ?ts] else Inr []) = Inr x"
  proof (cases "vr = []")
    case True
    then show ?thesis by simp
  next
    case False
    then have ne: "?ts \<noteq> []" by simp
    from assms(1) have pr: "\<forall>t \<in> set ?ts. printable t" by simp
    then have fin: "\<forall>t \<in> set ?ts. \<exists>r. t = Fin r" using printable_finite by blast
    from mathMin_finite [OF ne fin] mathMax_finite(1) [OF ne fin] pr
    have "\<forall>t \<in> set [mathMin ?ts, mathMax ?ts]. \<exists>s. isoOfSeconds t = Inr s"
      using printable_iso by auto
    from mapArray_total [OF this] False show ?thesis by simp
  qed
  from printable_iso [OF assms(2)] obtain x4 where s4: "isoOfSeconds (Fin (of_int now)) = Inr x4" by blast
  show ?thesis
    unfolding logValidResults_def Let_def
    by (simp only: s1 s2 andThen_Inr andThen_skip [OF s3] s4 list.size if_False less_irrefl) blast
qed

lemma getNetworkTps_reduce:
  assumes "0 \<le> nowMs" and "nowMs \<le> 8640000000000000" and "printableStore docs"
  shows "getNetworkTps chainIds docs nowMs
         = buildSnapshot (nowMs div 1000)
             (map (latestRecent docs (nowMs div 1000)) (validChains chainIds docs (nowMs div 1000)))"
proof -
  let ?now = "nowMs div 1000"
  let ?oda = "?now - 86400"
  let ?vr = "map (latestRecent docs ?now) (validChains chainIds docs ?now)"
  have oda: "?oda = ?now - 86400" by simp
  note b = logTimeBoundaries_ok [OF assms(1,2)]
  have vr: "\<forall>r \<in> set ?vr. printable (timestamp r) \<and> num_le (timestamp r) (Fin (of_int ?now))"
  proof
    fix r assume "r \<in> set ?vr"
    then obtain c where c: "c \<in> set (validChains chainIds docs ?now)" "r = latestRecent docs ?now c"
      by auto
    from latestRecent_props(2,4) [OF c(1)] c(2) assms(3)
    show "printable (timestamp r) \<and> num_le (timestamp r) (Fin (of_int ?now))"
      by (simp add: printableStore_def inLastDay_def)
  qed
  have "getNetworkTps chainIds docs nowMs
        = andThen (logTimeBoundaries ?now ?oda) (\<lambda>_.
          andThen (logAllRecords ?oda docs) (\<lambda>_.
          andThen (filterArray (validResult ?oda ?now) (latestTpsResults chainIds docs ?oda ?now)) (\<lambda>kept.
          andThen (logValidResults ?now (map the kept)) (\<lambda>_. buildSnapshot ?now (map the kept)))))"
    by (simp add: getNetworkTps_def Let_def)
  also have "\<dots> = andThen (logValidResults ?now ?vr) (\<lambda>_. buildSnapshot ?now ?vr)"
    by (simp only: andThen_skip [OF b(1)] andThen_skip [OF logAllRecords_ok [OF assms(3)]]
        validResult_kept [OF oda] andThen_Inr validResults_eq [OF oda])
  also have "\<dots> = buildSnapshot ?now ?vr"
    by (rule andThen_skip [OF logValidResults_ok [OF vr b(2)]])
  finally show ?thesis .
qed


section \<open>Printing dates\<close>

lemma padZero2: "padZero 2 n = [digitChar (n div 10 mod 10), digitChar (n mod 10)]"
  unfolding numeral_2_eq_2 by simp

lemma padZero3: "padZero 3 n = [digitChar (n div 10 div 10 mod 10), digitChar (n div 10 mod 10), digitChar (n mod 10)]"
  unfolding numeral_3_eq_3 by simp

lemma padZero4: "padZero 4 n = [digitChar (n div 10 div 10 div 10 mod 10), digitChar (n div 10 div 10 mod 10), digitChar (n div 10 mod 10), digitChar (n mod 10)]"
proof -
  have "padZero (Suc (Suc (Suc (Suc 0)))) n = [digitChar (n div 10 div 10 div 10 mod 10), digitChar (n div 10 div 10 mod 10), digitChar (n div 10 mod 10), digitChar (n mod 10)]"
    by simp
  moreover have "(4::nat) = Suc (Suc (Suc (Suc 0)))" by simp
  ultimately show ?thesis by (simp only:)
qed

lemma civil_2023_11_14: "civilFromDays 19675 = (2023, 11, 14)"
  by code_simp

lemma iso0: "isoString 1699999900000 = ''2023-11-14T22:11:40.000Z''"
  by (simp add: isoString_def civil_2023_11_14 showYear_def padZero2 padZero3 padZero4 digitChar_def)

lemma iso1: "isoOfSeconds (Fin 1699999900) = Inr ''2023-11-14T22:11:40.000Z''"
  by (simp add: isoOfSeconds_def toISOString_def iso0 roundDouble_numeral)


section \<open>The totals of the snapshot\<close>

lemma isDouble_roundDouble [simp]: "isDouble (roundDouble x)"
  by (cases "roundDouble x") (simp_all add: isDouble_def roundDouble_idem)

lemma isDouble_zero [simp]: "isDouble (Fin 0)"
  by (simp add: isDouble_def roundDouble_def)

lemma isDouble_special [simp]: "isDouble NaN" "isDouble PosInf" "isDouble NegInf"
  by (simp_all add: isDouble_def)

lemma isDouble_num_add [simp]: "isDouble (num_add a b)"
  by (cases a; cases b) simp_all

lemma num_add_zero: "isDouble a \<Longrightarrow> num_add a (Fin 0) = a"
  by (cases a) (simp_all add: isDouble_def)

lemma num_add_not_NaN: "a \<noteq> NaN \<Longrightarrow> num_add a (Fin r) \<noteq> NaN"
  by (cases a) simp_all

lemma valueOrZero_falsy: "\<not> truthy v \<Longrightarrow> valueOrZero v = Fin 0"
  by (cases v) auto

lemma valueOrZero_truthy: "truthy v \<Longrightarrow> valueOrZero v \<noteq> Fin 0 \<and> valueOrZero v \<noteq> NaN"
proof (cases v)
  case (VNum x)
  assume "truthy v"
  with VNum show ?thesis by (cases x) auto
qed auto

lemma valueOrZero_not_NaN: "valueOrZero v \<noteq> NaN"
  using valueOrZero_truthy [of v] valueOrZero_falsy [of v] by (cases "truthy v") auto





lemma foldl_add_skip_falsy:
  "isDouble a \<Longrightarrow>
   foldl num_add a (map (\<lambda>x. valueOrZero (g x)) xs)
   = foldl num_add a (map (\<lambda>x. valueOrZero (g x)) (filter (\<lambda>x. truthy (g x)) xs))"
  by (induction xs arbitrary: a) (simp_all add: valueOrZero_falsy num_add_zero)

lemma valueOrZero_finite:
  "\<not> isInfinite v \<Longrightarrow> valueOrZero v = Fin (finiteValue v)"
proof (cases v)
  case (VNum y)
  assume "\<not> isInfinite v"
  with VNum show ?thesis by (cases y) (auto simp: isInfinite_def)
qed simp_all

lemma foldl_add_not_NaN:
  assumes "\<forall>x \<in> set xs. \<exists>r. x = Fin r" and "a \<noteq> NaN"
  shows "foldl num_add a xs \<noteq> NaN"
  using assms
proof (induction xs arbitrary: a)
  case Nil
  then show ?case by simp
next
  case (Cons x xs)
  from Cons.prems(1) obtain r where x: "x = Fin r" by auto
  from Cons.prems(2) have s: "num_add a x \<noteq> NaN" unfolding x by (rule num_add_not_NaN)
  from Cons.prems(1) have rest: "\<forall>x \<in> set xs. \<exists>r. x = Fin r" by simp
  from Cons.IH [OF rest s] show ?case by simp
qed

lemma num_map_not_NaN: "num_map f x = NaN \<longleftrightarrow> x = NaN"
  by (cases x) simp_all

lemma num_round_not_NaN: "num_round f x = NaN \<longleftrightarrow> x = NaN"
  by (cases x) simp_all

lemma floor_numeral_div: "\<lfloor>(numeral a :: rat) / numeral b\<rfloor> = numeral a div numeral b"
  using floor_divide_of_int_eq [of "numeral a" "numeral b", where ?'a = rat] by simp

lemma floor_half: "\<lfloor>(1 :: rat) / 2\<rfloor> = 0"
  by (rule floor_unique) simp_all

lemma toFixed2_zero [simp]: "toFixed2 0 = 0"
  by (simp add: toFixed2_def floor_half)

lemma roundDouble_zero [simp]: "roundDouble 0 = Fin 0"
  by (simp add: roundDouble_def)


lemma buildSnapshot_empty:
  "buildSnapshot now [] =
     Inr \<lparr>totalTps = Fin 0, chainCount = 0, snapshotTimestamp = Fin (of_int now),
          dataAge = Fin 0, lastUpdate = None\<rparr>"
  by (simp add: buildSnapshot_def)

lemma buildSnapshot_valid:
  assumes "vr \<noteq> []"
    and "\<forall>r \<in> set vr. printable (timestamp r) \<and> num_le (timestamp r) (Fin (of_int now))"
  shows "\<exists>m str. buildSnapshot now vr =
           Inr \<lparr>totalTps = num_round toFixed2 (foldl num_add (Fin 0) (map (\<lambda>r. valueOrZero (value r)) vr)),
                chainCount = length vr, snapshotTimestamp = Fin m,
                dataAge = mathMax [Fin 0,
                            num_map (\<lambda>r. of_int \<lfloor>r\<rfloor>)
                              (num_round (\<lambda>r. r / 60) (num_sub (Fin (of_int now)) (Fin m)))],
                lastUpdate = Some str\<rparr>
         \<and> isoOfSeconds (Fin m) = Inr str
         \<and> Fin m \<in> set (map timestamp vr)
         \<and> (\<forall>r \<in> set vr. num_le (timestamp r) (Fin m))"
proof -
  let ?ts = "map timestamp vr"
  from assms(1) have ne: "?ts \<noteq> []" by simp
  from assms(2) have pr: "\<forall>t \<in> set ?ts. printable t" by simp
  then have fin: "\<forall>t \<in> set ?ts. \<exists>r. t = Fin r" using printable_finite by blast
  note mx = mathMax_finite [OF ne fin]
  from mx(1) pr have "printable (mathMax ?ts)" by blast
  then obtain m str where m: "mathMax ?ts = Fin m" and str: "isoOfSeconds (mathMax ?ts) = Inr str"
    using printable_finite printable_iso by blast
  have total: "foldl (\<lambda>sum result. num_add sum (valueOrZero (value result))) (Fin 0) vr
               = foldl num_add (Fin 0) (map (\<lambda>r. valueOrZero (value r)) vr)"
    by (simp add: foldl_map)
  from assms(1) have "buildSnapshot now vr =
           Inr \<lparr>totalTps = num_round toFixed2 (foldl num_add (Fin 0) (map (\<lambda>r. valueOrZero (value r)) vr)),
                chainCount = length vr, snapshotTimestamp = Fin m,
                dataAge = mathMax [Fin 0,
                            num_map (\<lambda>r. of_int \<lfloor>r\<rfloor>)
                              (num_round (\<lambda>r. r / 60) (num_sub (Fin (of_int now)) (Fin m)))],
                lastUpdate = Some str\<rparr>"
    unfolding buildSnapshot_def Let_def
    by (simp only: total str andThen_Inr) (simp add: m)
  with mx m str show ?thesis by auto
qed


lemma valueOrZero_PosInf: "valueOrZero v = PosInf \<longleftrightarrow> v = VNum PosInf"
proof (cases v)
  case (VNum x)
  then show ?thesis by (cases x) auto
qed auto

lemma valueOrZero_NegInf: "valueOrZero v = NegInf \<longleftrightarrow> v = VNum NegInf"
proof (cases v)
  case (VNum x)
  then show ?thesis by (cases x) auto
qed auto


lemma valid_results_bounded:
  assumes "printableStore docs"
  shows "\<forall>r \<in> set (map (latestRecent docs now) (validChains chainIds docs now)).
           printable (timestamp r) \<and> num_le (timestamp r) (Fin (of_int now))"
proof
  fix r assume "r \<in> set (map (latestRecent docs now) (validChains chainIds docs now))"
  then obtain c where c: "c \<in> set (validChains chainIds docs now)" "r = latestRecent docs now c"
    by auto
  from latestRecent_props(2,4) [OF c(1)] c(2) assms
  show "printable (timestamp r) \<and> num_le (timestamp r) (Fin (of_int now))"
    by (simp add: printableStore_def inLastDay_def)
qed






lemma printable_sampleDocs: "printableStore sampleDocs"
  by (simp add: printableStore_def sampleDocs_def printable_def)

lemma validChains_sample:
  "validChains [''43114'', ''4337'', ''8888''] sampleDocs 1700000000 = [''43114'', ''4337'']"
  by (simp add: validChains_def recentOf_def inLastDay_def sampleDocs_def num_ge_def)

lemma latestRecent_sample:
  "latestRecent sampleDocs 1700000000 ''43114''
     = \<lparr>chainId = ''43114'', timestamp = Fin 1699999000, value = VNum (Fin (41 / 8)), lastUpdated = 0\<rparr>"
  "latestRecent sampleDocs 1700000000 ''4337''
     = \<lparr>chainId = ''4337'', timestamp = Fin 1699999900, value = VNull, lastUpdated = 0\<rparr>"
  by (simp_all add: latestRecent_def recentOf_def inLastDay_def sampleDocs_def num_ge_def less_eq_prod_def)

lemma roundDouble_41_8: "roundDouble (41 / 8) = Fin (41 / 8)"
  using roundDouble_dyadic [of 41 3] by simp

lemma toFixed2_41_8: "toFixed2 (41 / 8) = 513 / 100"
  by (simp add: toFixed2_def floor_numeral_div)


text \<open>
  C10 (as amended). Under the same conditions the snapshot is returned; every valid
  chain is counted in \<open>chainCount\<close>, whatever the value of its latest document in the
  window; \<open>totalTps\<close> is the rounded sum over the valid chains whose value is truthy
  only, so a missing, null, zero or NaN value adds nothing; and \<open>totalTps\<close> is not
  NaN when none of the values summed is \<open>+Infinity\<close> or \<open>-Infinity\<close>.
\<close>

theorem falsy_value_adds_nothing:
  assumes "0 \<le> nowMs" and "nowMs \<le> 8640000000000000" and "printableStore docs"
  shows "\<exists>s. getNetworkTps chainIds docs nowMs = Inr s
           \<and> chainCount s = length (validChains chainIds docs (nowMs div 1000))
           \<and> totalTps s =
               num_round toFixed2
                 (foldl num_add (Fin 0)
                    (map (\<lambda>c. valueOrZero (value (latestRecent docs (nowMs div 1000) c)))
                       (filter (\<lambda>c. truthy (value (latestRecent docs (nowMs div 1000) c)))
                          (validChains chainIds docs (nowMs div 1000)))))
           \<and> ((\<forall>c \<in> set (validChains chainIds docs (nowMs div 1000)).
                  \<not> isInfinite (value (latestRecent docs (nowMs div 1000) c)))
                \<longrightarrow> totalTps s \<noteq> NaN)"
proof -
  let ?now = "nowMs div 1000"
  let ?vc = "validChains chainIds docs ?now"
  let ?vr = "map (latestRecent docs ?now) ?vc"
  let ?xs = "map (\<lambda>c. valueOrZero (value (latestRecent docs ?now c))) ?vc"
  note red = getNetworkTps_reduce [OF assms, of chainIds]
  have skip: "foldl num_add (Fin 0) ?xs
              = foldl num_add (Fin 0)
                  (map (\<lambda>c. valueOrZero (value (latestRecent docs ?now c)))
                     (filter (\<lambda>c. truthy (value (latestRecent docs ?now c))) ?vc))"
    by (rule foldl_add_skip_falsy) simp
  have nan: "foldl num_add (Fin 0) ?xs \<noteq> NaN"
    if "\<forall>c \<in> set ?vc. \<not> isInfinite (value (latestRecent docs ?now c))"
  proof (rule foldl_add_not_NaN)
    show "\<forall>x \<in> set ?xs. \<exists>r. x = Fin r" using that by (auto simp: valueOrZero_finite)
    show "Fin 0 \<noteq> NaN" by simp
  qed
  obtain s where s: "getNetworkTps chainIds docs nowMs = Inr s"
    and cnt: "chainCount s = length ?vc"
    and tot: "totalTps s = num_round toFixed2 (foldl num_add (Fin 0) ?xs)"
  proof (cases "?vc = []")
    case True
    then show ?thesis using that by (simp add: red buildSnapshot_empty)
  next
    case False
    then have vne: "?vr \<noteq> []" by simp
    have comp: "map (\<lambda>r. valueOrZero (value r)) ?vr = ?xs" by simp
    from buildSnapshot_valid [OF vne valid_results_bounded [OF assms(3)]] show ?thesis
      using that unfolding red comp by auto
  qed
  from s cnt tot skip nan show ?thesis by (auto simp: num_round_not_NaN)
qed

lemma validChains_infinite:
  "validChains [''43114'', ''4337''] infiniteDocs 1700000000 = [''43114'', ''4337'']"
  by (simp add: validChains_def recentOf_def inLastDay_def infiniteDocs_def num_ge_def)

lemma latestRecent_infinite:
  "map (latestRecent infiniteDocs 1700000000) [''43114'', ''4337'']
   = [\<lparr>chainId = ''43114'', timestamp = Fin 1699999000, value = VNum PosInf, lastUpdated = 0\<rparr>,
      \<lparr>chainId = ''4337'', timestamp = Fin 1699999900, value = VNum NegInf, lastUpdated = 0\<rparr>]"
  by (simp add: latestRecent_def recentOf_def inLastDay_def infiniteDocs_def num_ge_def)

lemma dataAge_100:
  "num_map (\<lambda>r. of_int \<lfloor>r\<rfloor>)
     (num_round (\<lambda>r. r / 60) (num_sub (Fin 1700000000) (Fin 1699999900)))
   = Fin 1"
  by (simp add: num_sub_def roundDouble_numeral roundDouble_5_3 floor_numeral_div)

lemma buildSnapshot_infinite:
  "buildSnapshot 1700000000
     [\<lparr>chainId = ''43114'', timestamp = Fin 1699999000, value = VNum PosInf, lastUpdated = 0\<rparr>,
      \<lparr>chainId = ''4337'', timestamp = Fin 1699999900, value = VNum NegInf, lastUpdated = 0\<rparr>]
   = Inr \<lparr>totalTps = NaN, chainCount = 2, snapshotTimestamp = Fin 1699999900, dataAge = Fin 1,
        lastUpdate = Some ''2023-11-14T22:11:40.000Z''\<rparr>"
  by (simp add: buildSnapshot_def mathMax_def num_max2_def iso1 Let_def dataAge_100)

text \<open>
  C10, as stated, fails: with two valid chains whose latest values are \<open>+Infinity\<close> and
  \<open>-Infinity\<close> (both truthy) the total is NaN.
\<close>

theorem opposite_infinities_counterexample:
  "getNetworkTps [''43114'', ''4337''] infiniteDocs 1700000000123 =
     Inr \<lparr>totalTps = NaN, chainCount = 2, snapshotTimestamp = Fin 1699999900, dataAge = Fin 1,
          lastUpdate = Some ''2023-11-14T22:11:40.000Z''\<rparr>"
proof -
  have p: "printableStore infiniteDocs"
    by (simp add: printableStore_def infiniteDocs_def printable_def)
  have now: "(1700000000123 :: int) div 1000 = 1700000000" by simp
  have "getNetworkTps [''43114'', ''4337''] infiniteDocs 1700000000123
        = buildSnapshot 1700000000 (map (latestRecent infiniteDocs 1700000000) [''43114'', ''4337''])"
    using getNetworkTps_reduce [OF _ _ p, of 1700000000123 "[''43114'', ''4337'']"]
    unfolding now validChains_infinite by simp
  then show ?thesis by (simp only: latestRecent_infinite buildSnapshot_infinite)
qed

theorem falsy_value_adds_nothing_witness:
  "\<exists>s. getNetworkTps [''43114'', ''4337'', ''8888''] sampleDocs 1700000000123 = Inr s
        \<and> chainCount s = 2 \<and> totalTps s = roundDouble (513 / 100)
        \<and> value (latestRecent sampleDocs 1700000000 ''4337'') = VNull"
proof -
  have now: "(1700000000123 :: int) div 1000 = 1700000000" by simp
  have h1: "(0 :: int) \<le> 1700000000123" and h2: "(1700000000123 :: int) \<le> 8640000000000000"
    by simp_all
  have total: "num_round toFixed2
                 (foldl num_add (Fin 0)
                    (map (\<lambda>c. valueOrZero (value (latestRecent sampleDocs 1700000000 c)))
                       (filter (\<lambda>c. truthy (value (latestRecent sampleDocs 1700000000 c)))
                          [''43114'', ''4337'']))) = roundDouble (513 / 100)"
    by (simp add: latestRecent_sample roundDouble_41_8 toFixed2_41_8)
  from falsy_value_adds_nothing [OF h1 h2 printable_sampleDocs, of "[''43114'', ''4337'', ''8888'']"]
  show ?thesis unfolding now validChains_sample total by (auto simp: latestRecent_sample)
qed


section \<open>Properties of the history\<close>











lemma roundHalfEven_numeral [simp]: "roundHalfEven (numeral n) = numeral n"
  using roundHalfEven_int [of "numeral n"] by simp









section \<open>The timestamps of the collection\<close>

lemma updateFirst_printable: "printableStore docs \<Longrightarrow> printableStore (updateFirst opn docs)"
  by (induction docs) (simp_all add: printableStore_def applySet_def)

lemma updateOneUpsert_printable:
  "printableStore docs \<Longrightarrow> printable (filterTimestamp opn) \<Longrightarrow>
   printableStore (fst (updateOneUpsert opn (docs, res)))"
proof (cases "find (matchesFilter opn) docs")
  case None
  assume "printableStore docs" "printable (filterTimestamp opn)"
  with None show ?thesis by (simp add: updateOneUpsert_def printableStore_def insertedDoc_def)
next
  case (Some d)
  assume "printableStore docs"
  then have "printableStore (updateFirst opn docs)" by (rule updateFirst_printable)
  with Some show ?thesis by (simp add: updateOneUpsert_def)
qed

lemma bulkApply_printable:
  "printableStore (fst st) \<Longrightarrow> \<forall>opn \<in> set ops. printable (filterTimestamp opn) \<Longrightarrow>
   printableStore (fst (bulkApply fails i ops st))"
proof (induction ops arbitrary: i st)
  case Nil
  then show ?case by simp
next
  case (Cons opn ops)
  obtain docs res where st: "st = (docs, res)" by (cases st)
  from Cons.prems st have "printableStore (fst (updateOneUpsert opn st))"
    by (simp add: updateOneUpsert_printable)
  with Cons.prems(1) have "printableStore (fst (if fails i then st else updateOneUpsert opn st))"
    by simp
  from Cons.IH [OF this] Cons.prems(2) show ?case by simp
qed

lemma bulkWrite_printable:
  "printableStore docs \<Longrightarrow> \<forall>opn \<in> set ops. printable (filterTimestamp opn) \<Longrightarrow>
   printableStore (fst (bulkWrite fails ops docs))"
  using bulkApply_printable [of "(docs, \<lparr>matchedCount = 0, modifiedCount = 0, upsertedCount = 0\<rparr>)" ops fails 0]
  by (cases "bulkApply fails 0 ops (docs, \<lparr>matchedCount = 0, modifiedCount = 0, upsertedCount = 0\<rparr>)")
    (simp add: bulkWrite_def)

lemma updateOps_timestamps:
  "updateOps cid dates i xs = Inr ops \<Longrightarrow>
   \<forall>opn \<in> set ops. \<exists>x \<in> set xs. filterTimestamp opn = Number (item_timestamp x)"
proof (induction xs arbitrary: i ops)
  case Nil
  then show ?case by simp
next
  case (Cons x xs)
  then obtain tsv vv where x: "x = Item tsv vv" by (cases x) auto
  with Cons.prems obtain ops' where o: "updateOps cid dates (Suc i) xs = Inr ops'"
    and ops: "ops = \<lparr>filterChainId = cid, filterTimestamp = Number tsv,
                setValue = parseFloat vv, setLastUpdated = dates i\<rparr> # ops'"
    by (auto split: sum.splits)
  from Cons.IH [OF o] ops x show ?case by auto
qed

lemma inWindow_printable:
  assumes "inWindow now item" and "0 \<le> now" and "now \<le> 8640000000000"
  shows "printable (Number (item_timestamp item))"
proof -
  from assms(1) obtain tsv vv where item: "item = Item tsv vv" by (cases item) (auto simp: inWindow_def)
  with assms(1) have ge: "num_ge (Number tsv) (Fin (of_int (now - 30 * 86400)))"
    and le: "num_le (Number tsv) (Fin (of_int now))" and nn: "\<not> isNaN (Number tsv)"
    by (simp_all add: inWindow_def)
  show ?thesis
  proof (cases "Number tsv")
    case (Fin r)
    with ge le have a: "of_int (now - 30 * 86400) \<le> r" and b: "r \<le> of_int now"
      by (simp_all add: num_ge_def)
    from assms(2) have "(-2592000::rat) \<le> of_int (now - 30 * 86400)" by simp
    with a have lo: "-2592000 \<le> r" by linarith
    from assms(3) have "(of_int now :: rat) \<le> 8640000000000"
      by (metis of_int_le_iff of_int_numeral)
    with b have hi: "r \<le> 8640000000000" by linarith
    from lo hi Fin item show ?thesis by (simp add: printable_def abs_le_iff)
  next
    case NaN
    with nn show ?thesis by (simp add: isNaN_def)
  next
    case NegInf
    with ge show ?thesis by (simp add: num_ge_def)
  next
    case PosInf
    with le show ?thesis by simp
  qed
qed

lemma tryBody_printable:
  assumes "printableStore docs" and "saneClock a"
  shows "printableStore (fst (tryBody cid a docs))"
proof (cases "response a")
  case (Rejected e)
  with assms(1) show ?thesis by (simp add: tryBody_def)
next
  case (Resolved data)
  show ?thesis
  proof (cases data)
    case DataFalsy
    with Resolved assms(1) show ?thesis by (simp add: tryBody_def)
  next
    case ResultsNotArray
    with Resolved assms(1) show ?thesis by (simp add: tryBody_def)
  next
    case (Results results)
    let ?now = "dateNow a div 1000"
    from assms(2) have "0 \<le> dateNow a" and "dateNow a \<le> 8640000000000000"
      by (simp_all add: saneClock_def)
    then have n0: "0 \<le> ?now" and n1: "?now \<le> 8640000000000" by arith+
    show ?thesis
    proof (cases "validTpsData ?now results")
      case (Inl e)
      with Resolved Results assms(1) show ?thesis by (simp add: tryBody_def Let_def)
    next
      case (Inr valid)
      then have v: "valid = filter (inWindow ?now) results" by (rule validTpsData_Inr(1))
      show ?thesis
      proof (cases "updateOps cid (newDates a) 0 valid")
        case (Inl e)
        with Resolved Results Inr assms(1) show ?thesis by (simp add: tryBody_def Let_def)
      next
        case ops: (Inr ops)
        have "\<forall>opn \<in> set ops. printable (filterTimestamp opn)"
        proof
          fix opn assume "opn \<in> set ops"
          with updateOps_timestamps [OF ops] obtain x where
            x: "x \<in> set valid" and t: "filterTimestamp opn = Number (item_timestamp x)" by blast
          from x v have "inWindow ?now x" by simp
          from inWindow_printable [OF this n0 n1] t show "printable (filterTimestamp opn)" by simp
        qed
        with assms(1) have "printableStore (fst (bulkWrite (writeFails a) ops docs))"
          by (rule bulkWrite_printable)
        with Resolved Results Inr ops assms(1) show ?thesis
          by (cases "bulkWrite (writeFails a) ops docs")
            (auto simp: tryBody_def Let_def split: sum.splits)
      qed
    qed
  qed
qed

lemma updateTpsData_printable:
  assumes "printableStore docs" and "\<forall>k. saneClock (env k)"
    and "updateTpsData cid n env docs = Inr u"
  shows "printableStore (docsAfter u)"
proof -
  have "printableStore docs \<Longrightarrow> attemptLoop cid env n k docs = Inr u \<Longrightarrow> printableStore (docsAfter u)"
    for k docs u
  proof (induction "Suc n - k" arbitrary: k docs u)
    case 0
    then have "\<not> k \<le> n" by simp
    with 0 show ?case by (auto simp: attemptLoop_exhausted)
  next
    case (Suc x)
    then have le: "k \<le> n" and x: "x = Suc n - Suc k" by simp_all
    from assms(2) have "saneClock (env k)" by simp
    with Suc.prems(1) have ud: "printableStore (fst (tryBody cid (env k) docs))"
      by (rule tryBody_printable)
    show ?case
    proof (cases rule: tryBody_cases [of cid "env k" docs])
      case (raise docs' e)
      with ud have ud': "printableStore docs'" by simp
      show ?thesis
      proof (cases "k = n")
        case True
        with raise Suc.prems(2) ud' show ?thesis by (auto simp: attemptLoop_raise_last)
      next
        case False
        with le have lt: "k < n" by simp
        from attemptLoop_returns obtain v where v: "attemptLoop cid env n (Suc k) docs' = Inr v" by blast
        from Suc.hyps(1) [OF x ud' v] have "printableStore (docsAfter v)" .
        with raise lt v Suc.prems(2) show ?thesis by (auto simp: attemptLoop_raise_retry)
      qed
    next
      case (continue docs')
      with ud have ud': "printableStore docs'" by simp
      from attemptLoop_returns obtain v where v: "attemptLoop cid env n (Suc k) docs' = Inr v" by blast
      from Suc.hyps(1) [OF x ud' v] have "printableStore (docsAfter v)" .
      with continue le v Suc.prems(2) show ?thesis by (auto simp: attemptLoop_continue)
    next
      case (applied docs' res)
      with ud le Suc.prems(2) show ?thesis by (auto simp: attemptLoop_applied)
    next
      case (nodata docs')
      with ud le Suc.prems(2) show ?thesis by (auto simp: attemptLoop_nodata)
    qed
  qed
  with assms(1,3) show ?thesis by (simp add: updateTpsData_def)
qed


section \<open>Numbers at the limits of the doubles\<close>

text \<open>
  A literal beyond the largest double reads as \<^verbatim>\<open>Infinity\<close>. The literal \<^verbatim>\<open>1.005\<close>
  reads as the double just below it, so \<^verbatim>\<open>toFixed(2)\<close> prints \<^verbatim>\<open>1.00\<close>. Two values
  read from \<^verbatim>\<open>1e308\<close> add up to \<^verbatim>\<open>Infinity\<close>, and \<^verbatim>\<open>-Infinity\<close> added to that
  is NaN.
\<close>

lemma parseFloat_1e400: "parseFloat (JStr ''1e400'') = PosInf"
proof -
  have "(2::rat) ^ 1024 \<le> 10 ^ 400" by simp
  from roundDouble_overflow [OF this] show ?thesis by (simp add: parse_defs)
qed

lemma roundDouble_1005:
  "roundDouble (201 / 200) = Fin (4526117625507348 / 4503599627370496)"
  using roundDouble_nearest [of "- 52" "201 / 200" 4526117625507348] by (simp add: pow2_def)

lemma toFixed_1005:
  "parseFloat (JStr ''1.005'') = Fin (4526117625507348 / 4503599627370496)"
  "num_round toFixed2 (parseFloat (JStr ''1.005'')) = Fin 1"
proof -
  show p: "parseFloat (JStr ''1.005'') = Fin (4526117625507348 / 4503599627370496)"
    by (simp add: parse_defs roundDouble_1005)
  show "num_round toFixed2 (parseFloat (JStr ''1.005'')) = Fin 1"
    unfolding p by (simp add: toFixed2_def floor_numeral_div)
qed

lemma overflow_then_NaN:
  "\<exists>y. parseFloat (JStr ''1e308'') = Fin y
       \<and> foldl num_add (Fin 0) [Fin y, Fin y, NegInf] = NaN"
proof -
  have lo: "of_int (2 ^ 52) * pow2 971 \<le> (10::rat) ^ 308" by (simp add: pow2_def)
  have hi: "(10::rat) ^ 308 \<le> of_int (2 ^ 53 - 1) * pow2 971" by (simp add: pow2_def)
  from roundDouble_between [OF lo hi] obtain y where
    y: "roundDouble (10 ^ 308) = Fin y" and y1: "of_int (2 ^ 52) * pow2 971 \<le> y" by auto
  from y1 have "2 ^ 1023 \<le> y" by (simp add: pow2_def)
  then have "2 ^ 1024 \<le> 2 * y" by simp
  then have o: "roundDouble (2 * y) = PosInf" by (rule roundDouble_overflow)
  from y have i: "roundDouble y = Fin y" by (rule roundDouble_idem)
  have "parseFloat (JStr ''1e308'') = Fin y" using y by (simp add: parse_defs)
  moreover have "foldl num_add (Fin 0) [Fin y, Fin y, NegInf] = NaN" by (simp add: i o)
  ultimately show ?thesis by blast
qed
end
